theory Spec2Isabelle
  imports Complex_Main "HOL-Library.Sublist"
begin


section \<open>Data model\<close>

text \<open>
  The engine works on the revision dictionaries returned by the MediaWiki API. Every key
  may be absent, so each field of a revision is optional. A field read with
  \<^verbatim>\<open>rev['key']\<close> raises \<^verbatim>\<open>KeyError\<close> when the key is absent; a field
  read with \<^verbatim>\<open>rev.get('key', d)\<close> falls back to \<open>d\<close>.

  Timestamps are ISO-8601 strings in the source, parsed by \<^verbatim>\<open>datetime.fromisoformat\<close>
  before any arithmetic. The model holds the parsed instant, in whole seconds, and the
  quotients \<^verbatim>\<open>total_seconds() / 3600\<close> and \<^verbatim>\<open>/ 60\<close> are exact rationals.
  Sizes are Python integers.
\<close>

datatype error = KeyError string | IndexError | ValueError | ZeroDivisionError

record revision =
  rev_timestamp :: "int option"
  rev_user :: "string option"
  rev_comment :: "string option"
  rev_size :: "int option"
  rev_revid :: "int option"
  rev_parentid :: "int option"

text \<open>
  The dictionaries appended by \<^verbatim>\<open>detect_reverts_quick\<close> and
  \<^verbatim>\<open>EditWarSummary.detect_reverts\<close> have four keys; those appended by
  \<^verbatim>\<open>EditWarAnalyzer.detect_reverts\<close> have three more.
\<close>

record revert =
  timestamp :: int
  user :: string
  comment :: string
  size_bytes :: int

record full_revert = revert +
  revid :: int
  parentid :: "int option"
  reverted_to_size :: int

section \<open>Strings\<close>

text \<open>
  \<^verbatim>\<open>str.lower\<close>, on the ASCII letters: an upper-case letter is replaced by the
  lower-case letter at the same place of the alphabet, every other character stays.
\<close>

definition lower_char :: "char \<Rightarrow> char" where
  "lower_char c =
     (case map_of (zip ''ABCDEFGHIJKLMNOPQRSTUVWXYZ'' ''abcdefghijklmnopqrstuvwxyz'') c of
        None \<Rightarrow> c
      | Some l \<Rightarrow> l)"

definition lower :: "string \<Rightarrow> string" where
  "lower s = map lower_char s"

text \<open>\<^verbatim>\<open>sub in s\<close>: \<open>sub\<close> occurs in \<open>s\<close> as a contiguous substring.\<close>

fun str_contains :: "string \<Rightarrow> string \<Rightarrow> bool" where
  "str_contains sub [] = (sub = [])"
| "str_contains sub (c # cs) = (prefix sub (c # cs) \<or> str_contains sub cs)"

text \<open>\<^verbatim>\<open>d.get(key, default)\<close> on an optional field.\<close>

definition get_or :: "'a option \<Rightarrow> 'a \<Rightarrow> 'a" where
  "get_or v d = (case v of None \<Rightarrow> d | Some x \<Rightarrow> x)"

section \<open>Revert classification\<close>

subsection \<open>\<^verbatim>\<open>detect_reverts_quick\<close> (quick\_edit\_war\_stats.py)\<close>

definition revert_indicators_quick :: "string list" where
  "revert_indicators_quick =
     [''revert'', ''undo'', ''rv'', ''rollback'', ''restore'', ''reverted'']"

fun detect_reverts_quick_loop ::
  "revision \<Rightarrow> revision list \<Rightarrow> revert list \<Rightarrow> error + revert list" where
  "detect_reverts_quick_loop previous_rev [] reverts = Inr reverts"
| "detect_reverts_quick_loop previous_rev (current_rev # rest) reverts =
     (let comment = lower (get_or (rev_comment current_rev) '''') in
      if list_ex (\<lambda>indicator. str_contains indicator comment) revert_indicators_quick
      then (case rev_timestamp current_rev of
              None \<Rightarrow> Inl (KeyError ''timestamp'')
            | Some ts \<Rightarrow>
                detect_reverts_quick_loop current_rev rest
                  (reverts @ [\<lparr>timestamp = ts,
                               user = get_or (rev_user current_rev) ''Anonymous'',
                               comment = get_or (rev_comment current_rev) '''',
                               size_bytes = get_or (rev_size current_rev) 0\<rparr>]))
      else detect_reverts_quick_loop current_rev rest reverts)"

fun detect_reverts_quick :: "revision list \<Rightarrow> error + revert list" where
  "detect_reverts_quick [] = Inr []"
| "detect_reverts_quick (first_rev # rest) = detect_reverts_quick_loop first_rev rest []"

subsection \<open>\<^verbatim>\<open>EditWarSummary.detect_reverts\<close> (edit\_war\_summary.py)\<close>

definition revert_indicators_summary :: "string list" where
  "revert_indicators_summary =
     [''revert'', ''undo'', ''rv'', ''rollback'', ''restore'', ''reverted'']"

fun summary_detect_reverts_loop ::
  "revision \<Rightarrow> revision list \<Rightarrow> revert list \<Rightarrow> error + revert list" where
  "summary_detect_reverts_loop previous_rev [] reverts = Inr reverts"
| "summary_detect_reverts_loop previous_rev (current_rev # rest) reverts =
     (let comment = lower (get_or (rev_comment current_rev) '''') in
      if list_ex (\<lambda>indicator. str_contains indicator comment) revert_indicators_summary
      then (case rev_timestamp current_rev of
              None \<Rightarrow> Inl (KeyError ''timestamp'')
            | Some ts \<Rightarrow>
                summary_detect_reverts_loop current_rev rest
                  (reverts @ [\<lparr>timestamp = ts,
                               user = get_or (rev_user current_rev) ''Anonymous'',
                               comment = get_or (rev_comment current_rev) '''',
                               size_bytes = get_or (rev_size current_rev) 0\<rparr>]))
      else summary_detect_reverts_loop current_rev rest reverts)"

fun summary_detect_reverts :: "revision list \<Rightarrow> error + revert list" where
  "summary_detect_reverts [] = Inr []"
| "summary_detect_reverts (first_rev # rest) = summary_detect_reverts_loop first_rev rest []"

subsection \<open>\<^verbatim>\<open>EditWarAnalyzer.detect_reverts\<close> (edit\_war\_analyzer.py)\<close>

definition revert_indicators :: "string list" where
  "revert_indicators = [''revert'', ''undo'', ''rv'', ''rollback'', ''restore'']"

text \<open>
  The size gate: both revisions carry a size, and
  \<^verbatim>\<open>abs(cur - prev) / max(cur, 1) < 0.1\<close>.
\<close>

definition size_ratio :: "int \<Rightarrow> int \<Rightarrow> rat" where
  "size_ratio cur_size prev_size =
     (let size_diff = \<bar>cur_size - prev_size\<bar> in of_int size_diff / of_int (max cur_size 1))"

fun detect_reverts_loop ::
  "revision \<Rightarrow> revision list \<Rightarrow> full_revert list \<Rightarrow> error + full_revert list" where
  "detect_reverts_loop previous_rev [] reverts = Inr reverts"
| "detect_reverts_loop previous_rev (current_rev # rest) reverts =
     (case (rev_size current_rev, rev_size previous_rev) of
        (Some cur_size, Some prev_size) \<Rightarrow>
          if size_ratio cur_size prev_size < 1 / 10 then
            (let comment = lower (get_or (rev_comment current_rev) '''');
                 is_revert = list_ex (\<lambda>indicator. str_contains indicator comment) revert_indicators
             in if is_revert then
                  (case rev_timestamp current_rev of
                     None \<Rightarrow> Inl (KeyError ''timestamp'')
                   | Some ts \<Rightarrow>
                      (case rev_revid current_rev of
                         None \<Rightarrow> Inl (KeyError ''revid'')
                       | Some rid \<Rightarrow>
                           detect_reverts_loop current_rev rest
                             (reverts @ [\<lparr>timestamp = ts,
                                          user = get_or (rev_user current_rev) ''Anonymous'',
                                          comment = get_or (rev_comment current_rev) '''',
                                          size_bytes = cur_size,
                                          revid = rid,
                                          parentid = rev_parentid current_rev,
                                          reverted_to_size = prev_size\<rparr>])))
                else detect_reverts_loop current_rev rest reverts)
          else detect_reverts_loop current_rev rest reverts
      | _ \<Rightarrow> detect_reverts_loop current_rev rest reverts)"

fun detect_reverts :: "revision list \<Rightarrow> error + full_revert list" where
  "detect_reverts [] = Inr []"
| "detect_reverts (first_rev # rest) = detect_reverts_loop first_rev rest []"

section \<open>Episode grouping\<close>

subsection \<open>\<^verbatim>\<open>EditWarAnalyzer._group_reverts_by_time\<close>\<close>

text \<open>
  \<^verbatim>\<open>(current_time - prev_time).total_seconds() / 3600\<close>, the gap in hours between two
  reverts.
\<close>

definition hours_between :: "'a revert_scheme \<Rightarrow> 'a revert_scheme \<Rightarrow> rat" where
  "hours_between prev cur = of_int (timestamp cur - timestamp prev) / 3600"

text \<open>
  The loop over \<^verbatim>\<open>range(1, len(reverts))\<close>, with the two attributes
  \<^verbatim>\<open>self.time_window_hours\<close> and \<^verbatim>\<open>self.revert_threshold\<close> as parameters.
  \<open>prev\<close> is \<^verbatim>\<open>reverts[i-1]\<close>.
\<close>

fun group_loop ::
  "rat \<Rightarrow> nat \<Rightarrow> 'a revert_scheme \<Rightarrow> 'a revert_scheme list \<Rightarrow>
   'a revert_scheme list list \<Rightarrow> 'a revert_scheme list \<Rightarrow> 'a revert_scheme list list" where
  "group_loop time_window_hours revert_threshold prev [] groups current_group =
     (if length current_group \<ge> revert_threshold then groups @ [current_group] else groups)"
| "group_loop time_window_hours revert_threshold prev (cur # rest) groups current_group =
     (let time_diff = hours_between prev cur in
      if time_diff \<le> time_window_hours
      then group_loop time_window_hours revert_threshold cur rest groups (current_group @ [cur])
      else group_loop time_window_hours revert_threshold cur rest
             (if length current_group \<ge> revert_threshold then groups @ [current_group]
              else groups)
             [cur])"

fun group_reverts_by_time ::
  "rat \<Rightarrow> nat \<Rightarrow> 'a revert_scheme list \<Rightarrow> 'a revert_scheme list list" where
  "group_reverts_by_time time_window_hours revert_threshold [] = []"
| "group_reverts_by_time time_window_hours revert_threshold (r # rest) =
     group_loop time_window_hours revert_threshold r rest [] [r]"

subsection \<open>The grouping step of \<^verbatim>\<open>EditWarSummary.analyze_edit_war_patterns\<close>\<close>

text \<open>
  The window (24 hours) and the minimum (3) are literals here. The function returns
  \<^verbatim>\<open>None\<close> before grouping when there are fewer than three reverts, and after
  grouping when no group is left.
\<close>

fun summary_group_loop ::
  "revert \<Rightarrow> revert list \<Rightarrow> revert list list \<Rightarrow> revert list \<Rightarrow> revert list list" where
  "summary_group_loop prev [] revert_groups current_group =
     (if length current_group \<ge> 3 then revert_groups @ [current_group] else revert_groups)"
| "summary_group_loop prev (cur # rest) revert_groups current_group =
     (let time_diff = (of_int (timestamp cur - timestamp prev) / 3600 :: rat) in
      if time_diff \<le> 24
      then summary_group_loop cur rest revert_groups (current_group @ [cur])
      else summary_group_loop cur rest
             (if length current_group \<ge> 3 then revert_groups @ [current_group]
              else revert_groups)
             [cur])"

definition summary_revert_groups :: "revert list \<Rightarrow> revert list list option" where
  "summary_revert_groups reverts =
     (if length reverts < 3 then None
      else (case reverts of
              [] \<Rightarrow> None
            | r # rest \<Rightarrow>
                (let revert_groups = summary_group_loop r rest [] [r] in
                 if revert_groups = [] then None else Some revert_groups)))"

subsection \<open>The grouping step of \<^verbatim>\<open>analyze_edit_war_patterns_quick\<close>\<close>

fun quick_group_loop ::
  "revert \<Rightarrow> revert list \<Rightarrow> revert list list \<Rightarrow> revert list \<Rightarrow> revert list list" where
  "quick_group_loop prev [] revert_groups current_group =
     (if length current_group \<ge> 3 then revert_groups @ [current_group] else revert_groups)"
| "quick_group_loop prev (cur # rest) revert_groups current_group =
     (let time_diff = (of_int (timestamp cur - timestamp prev) / 3600 :: rat) in
      if time_diff \<le> 24
      then quick_group_loop cur rest revert_groups (current_group @ [cur])
      else quick_group_loop cur rest
             (if length current_group \<ge> 3 then revert_groups @ [current_group]
              else revert_groups)
             [cur])"

definition quick_revert_groups :: "revert list \<Rightarrow> revert list list option" where
  "quick_revert_groups reverts =
     (if length reverts < 3 then None
      else (case reverts of
              [] \<Rightarrow> None
            | r # rest \<Rightarrow>
                (let revert_groups = quick_group_loop r rest [] [r] in
                 if revert_groups = [] then None else Some revert_groups)))"

section \<open>Episode statistics\<close>

subsection \<open>Library functions on a list of intervals\<close>

text \<open>
  What the statistics functions of the source do on an empty list: \<^verbatim>\<open>np.mean([])\<close> and
  \<^verbatim>\<open>np.median([])\<close> return \<^verbatim>\<open>nan\<close> (with a warning), \<^verbatim>\<open>min([])\<close> and
  \<^verbatim>\<open>max([])\<close> raise \<^verbatim>\<open>ValueError\<close>, and \<^verbatim>\<open>sum(xs) / len(xs)\<close> raises
  \<^verbatim>\<open>ZeroDivisionError\<close>. On a non-empty list they return a number, computed here in
  exact arithmetic.
\<close>

datatype np_float = Num rat | NaN

definition np_mean :: "rat list \<Rightarrow> np_float" where
  "np_mean xs = (if xs = [] then NaN else Num (sum_list xs / of_nat (length xs)))"

text \<open>The middle element of the sorted list, or the mean of the two middle elements.\<close>

definition middle_value :: "rat list \<Rightarrow> rat" where
  "middle_value xs =
     (let s = sort xs; n = length s in
      if n mod 2 = 1 then s ! (n div 2) else (s ! (n div 2 - 1) + s ! (n div 2)) / 2)"

definition np_median :: "rat list \<Rightarrow> np_float" where
  "np_median xs = (if xs = [] then NaN else Num (middle_value xs))"

fun py_min :: "rat list \<Rightarrow> error + rat" where
  "py_min [] = Inl ValueError"
| "py_min (x # xs) = Inr (fold min xs x)"

fun py_max :: "rat list \<Rightarrow> error + rat" where
  "py_max [] = Inl ValueError"
| "py_max (x # xs) = Inr (fold max xs x)"

definition py_truediv :: "rat \<Rightarrow> nat \<Rightarrow> error + rat" where
  "py_truediv a n = (if n = 0 then Inl ZeroDivisionError else Inr (a / of_nat n))"

subsection \<open>\<^verbatim>\<open>EditWarAnalyzer._analyze_edit_war_group\<close>\<close>

record war_data =
  start_time :: int
  end_time :: int
  duration_hours :: rat
  revert_count :: nat
  unique_editors :: nat
  editors :: "string set"
  avg_interval_minutes :: np_float
  median_interval_minutes :: np_float
  min_interval_minutes :: rat
  max_interval_minutes :: rat

text \<open>The loop that fills \<^verbatim>\<open>intervals\<close>, in minutes.\<close>

fun intervals_loop :: "'a revert_scheme \<Rightarrow> 'a revert_scheme list \<Rightarrow> rat list \<Rightarrow> rat list" where
  "intervals_loop prev [] intervals = intervals"
| "intervals_loop prev (cur # rest) intervals =
     intervals_loop cur rest (intervals @ [of_int (timestamp cur - timestamp prev) / 60])"

definition revert_intervals :: "'a revert_scheme list \<Rightarrow> rat list" where
  "revert_intervals revert_group =
     (case revert_group of [] \<Rightarrow> [] | r # rest \<Rightarrow> intervals_loop r rest [])"

text \<open>
  \<^verbatim>\<open>revert_group[0]\<close> raises \<^verbatim>\<open>IndexError\<close> on an empty group. Each of the four
  summary statistics is written \<^verbatim>\<open>f(intervals) if intervals else 0\<close>; the entries of
  the dictionary are evaluated in order, so a failure of \<^verbatim>\<open>min\<close> comes before one of
  \<^verbatim>\<open>max\<close>. \<^verbatim>\<open>list(set(editors))\<close> has no specified order and is kept as a set.
\<close>

definition analyze_edit_war_group :: "'a revert_scheme list \<Rightarrow> error + war_data" where
  "analyze_edit_war_group revert_group =
     (case revert_group of
        [] \<Rightarrow> Inl IndexError
      | first_revert # _ \<Rightarrow>
         (let start = timestamp first_revert;
              end = timestamp (last revert_group);
              duration = (of_int (end - start) / 3600 :: rat);
              unique = set (map user revert_group);
              intervals = revert_intervals revert_group;
              avg = (if intervals \<noteq> [] then np_mean intervals else Num 0);
              median = (if intervals \<noteq> [] then np_median intervals else Num 0)
          in case (if intervals \<noteq> [] then py_min intervals else Inr 0) of
               Inl e \<Rightarrow> Inl e
             | Inr min_interval \<Rightarrow>
                (case (if intervals \<noteq> [] then py_max intervals else Inr 0) of
                   Inl e \<Rightarrow> Inl e
                 | Inr max_interval \<Rightarrow>
                     Inr \<lparr>start_time = start,
                          end_time = end,
                          duration_hours = duration,
                          revert_count = length revert_group,
                          unique_editors = card unique,
                          editors = unique,
                          avg_interval_minutes = avg,
                          median_interval_minutes = median,
                          min_interval_minutes = min_interval,
                          max_interval_minutes = max_interval\<rparr>)))"

subsection \<open>The per-group step of \<^verbatim>\<open>analyze_edit_war_patterns_quick\<close>\<close>

record quick_war =
  q_revert_count :: nat
  q_duration_hours :: rat
  q_unique_editors :: nat
  q_editors :: "string set"
  q_avg_interval_minutes :: rat
  q_start_time :: int
  q_end_time :: int

text \<open>
  The average is \<^verbatim>\<open>sum(intervals) / len(intervals) if intervals else 0\<close>.
\<close>

definition quick_edit_war :: "revert list \<Rightarrow> error + quick_war" where
  "quick_edit_war grp =
     (case grp of
        [] \<Rightarrow> Inl IndexError
      | first_revert # _ \<Rightarrow>
         (let start = timestamp first_revert;
              end = timestamp (last grp);
              duration = (of_int (end - start) / 3600 :: rat);
              users = set (map user grp);
              intervals = revert_intervals grp
          in case (if intervals \<noteq> [] then py_truediv (sum_list intervals) (length intervals)
                   else Inr 0) of
               Inl e \<Rightarrow> Inl e
             | Inr avg \<Rightarrow>
                 Inr \<lparr>q_revert_count = length grp,
                      q_duration_hours = duration,
                      q_unique_editors = card users,
                      q_editors = users,
                      q_avg_interval_minutes = avg,
                      q_start_time = start,
                      q_end_time = end\<rparr>))"

section \<open>Editor participation\<close>

subsection \<open>\<^verbatim>\<open>EditWarAnalyzer._analyze_editor_participation\<close>\<close>

text \<open>
  A \<^verbatim>\<open>Counter\<close> is a dictionary that keeps its keys in insertion order: an association
  list with distinct keys. \<^verbatim>\<open>c[k] += 1\<close> bumps the entry of \<open>k\<close>, or appends
  \<open>(k, 1)\<close>; \<^verbatim>\<open>c.get(k, 0)\<close> reads it.
\<close>

fun counter_incr :: "(string \<times> nat) list \<Rightarrow> string \<Rightarrow> (string \<times> nat) list" where
  "counter_incr [] k = [(k, 1)]"
| "counter_incr ((k', n) # c) k =
     (if k' = k then (k', n + 1) # c else (k', n) # counter_incr c k)"

fun counter_get :: "(string \<times> nat) list \<Rightarrow> string \<Rightarrow> nat" where
  "counter_get [] k = 0"
| "counter_get ((k', n) # c) k = (if k' = k then n else counter_get c k)"

record editor_profile =
  total_edits :: nat
  reverts :: nat
  experience_level :: string
  edit_percentage :: rat

record participation =
  total_editors :: nat
  editor_breakdown :: "(string \<times> editor_profile) list"
  new_editors :: nat
  intermediate_editors :: nat
  veteran_editors :: nat

definition analyze_editor_participation ::
  "revision list \<Rightarrow> 'a revert_scheme list \<Rightarrow> participation" where
  "analyze_editor_participation revisions revert_list =
     (let editor_edits =
            fold (\<lambda>rev c. counter_incr c (get_or (rev_user rev) ''Anonymous'')) revisions [];
          editor_reverts = fold (\<lambda>revert c. counter_incr c (user revert)) revert_list [];
          total = sum_list (map snd editor_edits);
          editor_experience =
            map (\<lambda>(editor, edit_count).
                   (editor,
                    \<lparr>total_edits = edit_count,
                     reverts = counter_get editor_reverts editor,
                     experience_level =
                       (if edit_count < 10 then ''new''
                        else if edit_count < 100 then ''intermediate'' else ''veteran''),
                     edit_percentage =
                       (if total > 0 then of_nat edit_count / of_nat total * 100 else 0)\<rparr>))
                editor_edits
      in \<lparr>total_editors = length editor_edits,
          editor_breakdown = editor_experience,
          new_editors =
            length (filter (\<lambda>e. experience_level e = ''new'') (map snd editor_experience)),
          intermediate_editors =
            length (filter (\<lambda>e. experience_level e = ''intermediate'')
                      (map snd editor_experience)),
          veteran_editors =
            length (filter (\<lambda>e. experience_level e = ''veteran'')
                      (map snd editor_experience))\<rparr>)"

section \<open>Three-revert-rule scan\<close>

subsection \<open>\<^verbatim>\<open>EditWarAnalyzer._detect_three_revert_violations\<close>\<close>

record violation =
  v_user :: string
  v_timestamp :: int
  v_revert_count :: nat
  v_time_window_hours :: rat

text \<open>
  \<^verbatim>\<open>user_revisions[user].append(rev)\<close> on a \<^verbatim>\<open>defaultdict(list)\<close>: the keys stay in
  the order of their first insertion.
\<close>

fun dict_append ::
  "(string \<times> revision list) list \<Rightarrow> string \<Rightarrow> revision \<Rightarrow> (string \<times> revision list) list" where
  "dict_append [] k v = [(k, [v])]"
| "dict_append ((k', vs) # d) k v =
     (if k' = k then (k', vs @ [v]) # d else (k', vs) # dict_append d k v)"

text \<open>
  \<^verbatim>\<open>user_revs.sort(key=lambda x: x['timestamp'])\<close>: the keys are computed first (a
  revision without a timestamp raises \<^verbatim>\<open>KeyError\<close>), then the list is sorted by key,
  equal keys keeping their order. The keys of the source are the timestamp strings; in
  the uniform format of the API (\<^verbatim>\<open>2024-01-31T12:00:00Z\<close>) they are ordered as the
  instants they denote, which are the keys here.
\<close>

fun timestamp_keys :: "revision list \<Rightarrow> error + int list" where
  "timestamp_keys [] = Inr []"
| "timestamp_keys (r # rs) =
     (case rev_timestamp r of
        None \<Rightarrow> Inl (KeyError ''timestamp'')
      | Some t \<Rightarrow> (case timestamp_keys rs of Inl e \<Rightarrow> Inl e | Inr ts \<Rightarrow> Inr (t # ts)))"

definition sort_by_timestamp :: "revision list \<Rightarrow> error + revision list" where
  "sort_by_timestamp revs =
     (case timestamp_keys revs of
        Inl e \<Rightarrow> Inl e
      | Inr keys \<Rightarrow> Inr (map snd (sort_key fst (zip keys revs))))"

text \<open>
  The inner loop over \<^verbatim>\<open>range(1, len(user_revs))\<close>. It returns the violation at which
  it breaks, if any. \<open>prev\<close> is \<^verbatim>\<open>user_revs[i-1]\<close>.
\<close>

fun scan_loop :: "string \<Rightarrow> revision \<Rightarrow> revision list \<Rightarrow> nat \<Rightarrow> error + violation option" where
  "scan_loop usr prev [] revert_cnt = Inr None"
| "scan_loop usr prev (cur # rest) revert_cnt =
     (case rev_timestamp cur of
        None \<Rightarrow> Inl (KeyError ''timestamp'')
      | Some current_time \<Rightarrow>
         (case rev_timestamp prev of
            None \<Rightarrow> Inl (KeyError ''timestamp'')
          | Some prev_time \<Rightarrow>
             (let time_diff = (of_int (current_time - prev_time) / 3600 :: rat);
                  revert_cnt' =
                    (case (rev_size cur, rev_size prev) of
                       (Some cur_size, Some prev_size) \<Rightarrow>
                         (let size_diff = \<bar>cur_size - prev_size\<bar> in
                          if size_diff < 100 then revert_cnt + 1 else revert_cnt)
                     | _ \<Rightarrow> revert_cnt)
              in if time_diff \<le> 24 \<and> revert_cnt' \<ge> 3
                 then Inr (Some \<lparr>v_user = usr,
                                 v_timestamp = current_time,
                                 v_revert_count = revert_cnt',
                                 v_time_window_hours = time_diff\<rparr>)
                 else scan_loop usr cur rest revert_cnt')))"

text \<open>The outer loop over \<^verbatim>\<open>user_revisions.items()\<close>.\<close>

fun violations_loop ::
  "(string \<times> revision list) list \<Rightarrow> violation list \<Rightarrow> error + violation list" where
  "violations_loop [] violations = Inr violations"
| "violations_loop ((usr, user_revs) # rest) violations =
     (if length user_revs \<ge> 4 then
        (case sort_by_timestamp user_revs of
           Inl e \<Rightarrow> Inl e
         | Inr sorted_revs \<Rightarrow>
            (case sorted_revs of
               [] \<Rightarrow> violations_loop rest violations
             | first_rev # others \<Rightarrow>
                (case scan_loop usr first_rev others 0 of
                   Inl e \<Rightarrow> Inl e
                 | Inr None \<Rightarrow> violations_loop rest violations
                 | Inr (Some v) \<Rightarrow> violations_loop rest (violations @ [v]))))
      else violations_loop rest violations)"

definition detect_three_revert_violations :: "revision list \<Rightarrow> error + violation list" where
  "detect_three_revert_violations revisions =
     (let user_revisions =
            fold (\<lambda>rev d. dict_append d (get_or (rev_user rev) ''Anonymous'') rev) revisions []
      in violations_loop user_revisions [])"

section \<open>Reference definitions\<close>

text \<open>
  The definitions of this section are not translations of the source: they state, in the
  words of the specification, what the loops above are compared with.
\<close>

subsection \<open>Maximal runs\<close>

text \<open>
  The reverts split into runs: a run is extended as long as the gap to the next revert is
  at most the window, and a new run starts at the first larger gap.
\<close>

fun maximal_runs :: "rat \<Rightarrow> 'a revert_scheme list \<Rightarrow> 'a revert_scheme list list" where
  "maximal_runs w [] = []"
| "maximal_runs w [r] = [[r]]"
| "maximal_runs w (r # s # rest) =
     (case maximal_runs w (s # rest) of
        [] \<Rightarrow> [[r]]
      | g # gs \<Rightarrow> if hours_between r s \<le> w then (r # g) # gs else [r] # g # gs)"

subsection \<open>Classification\<close>

text \<open>
  The comment heuristic in the words of the specification: the lower-cased comment (empty
  when the revision has none) contains one of the six indicator substrings.
\<close>

definition comment_matches :: "revision \<Rightarrow> bool" where
  "comment_matches r =
     list_ex (\<lambda>indicator. str_contains indicator (lower (get_or (rev_comment r) '''')))
       [''revert'', ''undo'', ''rv'', ''rollback'', ''restore'', ''reverted'']"


text \<open>
  The revert event of a revision that carries a timestamp (and, for the seven-key event,
  a size and a revision id).
\<close>

definition quick_event :: "revision \<Rightarrow> revert" where
  "quick_event r =
     \<lparr>timestamp = the (rev_timestamp r),
      user = get_or (rev_user r) ''Anonymous'',
      comment = get_or (rev_comment r) '''',
      size_bytes = get_or (rev_size r) 0\<rparr>"



subsection \<open>Participation\<close>

text \<open>
  The editor a revision is attributed to: its user, or the sentinel \<open>Anonymous\<close> when
  the revision has none.
\<close>

definition editor_of :: "revision \<Rightarrow> string" where
  "editor_of r = get_or (rev_user r) ''Anonymous''"

text \<open>The experience tier of an edit count.\<close>

definition tier_of :: "nat \<Rightarrow> string" where
  "tier_of n = (if n < 10 then ''new'' else if n < 100 then ''intermediate'' else ''veteran'')"

text \<open>The first counter of \<^verbatim>\<open>_analyze_editor_participation\<close>, under a name.\<close>

definition editor_edits_of :: "revision list \<Rightarrow> (string \<times> nat) list" where
  "editor_edits_of revisions =
     fold (\<lambda>rev c. counter_incr c (get_or (rev_user rev) ''Anonymous'')) revisions []"

subsection \<open>Example histories\<close>

text \<open>
  A history of four revisions by two named editors and an anonymous one, the reverts
  \<^verbatim>\<open>EditWarAnalyzer.detect_reverts\<close> finds in it, and its editor profiles; and a
  history in which one editor has ten revisions.
\<close>

definition example_history :: "revision list" where
  "example_history =
     [\<lparr>rev_timestamp = Some 0, rev_user = Some ''Ann'', rev_comment = Some ''new section'',
       rev_size = Some 1000, rev_revid = Some 1, rev_parentid = None\<rparr>,
      \<lparr>rev_timestamp = Some 60, rev_user = Some ''Bob'', rev_comment = Some ''Reverted edits'',
       rev_size = Some 1010, rev_revid = Some 2, rev_parentid = Some 1\<rparr>,
      \<lparr>rev_timestamp = Some 120, rev_user = None, rev_comment = Some ''rv spam'',
       rev_size = Some 2000, rev_revid = Some 3, rev_parentid = Some 2\<rparr>,
      \<lparr>rev_timestamp = Some 180, rev_user = Some ''Ann'', rev_comment = None,
       rev_size = Some 2000, rev_revid = Some 4, rev_parentid = Some 3\<rparr>]"

definition example_reverts :: "full_revert list" where
  "example_reverts =
     [\<lparr>timestamp = 60, user = ''Bob'', comment = ''Reverted edits'', size_bytes = 1010,
       revid = 2, parentid = Some 1, reverted_to_size = 1000\<rparr>]"

definition example_breakdown :: "(string \<times> editor_profile) list" where
  "example_breakdown =
     [(''Ann'', \<lparr>total_edits = 2, reverts = 0, experience_level = ''new'', edit_percentage = 50\<rparr>),
      (''Bob'', \<lparr>total_edits = 1, reverts = 1, experience_level = ''new'', edit_percentage = 25\<rparr>),
      (''Anonymous'',
         \<lparr>total_edits = 1, reverts = 0, experience_level = ''new'', edit_percentage = 25\<rparr>)]"

definition example_busy_history :: "revision list" where
  "example_busy_history =
     replicate 10
       \<lparr>rev_timestamp = Some 0, rev_user = Some ''Ann'', rev_comment = Some ''copy edit'',
        rev_size = Some 1000, rev_revid = Some 1, rev_parentid = None\<rparr>
     @ [\<lparr>rev_timestamp = Some 60, rev_user = Some ''Bob'', rev_comment = Some ''typo'',
         rev_size = Some 1010, rev_revid = Some 2, rev_parentid = Some 1\<rparr>]"

subsection \<open>Intervals of an episode\<close>

text \<open>
  The gaps between consecutive members of an episode, in minutes: one per consecutive
  pair.
\<close>

definition consecutive_gaps_minutes :: "'a revert_scheme list \<Rightarrow> rat list" where
  "consecutive_gaps_minutes g =
     map (\<lambda>(a, b). of_int (timestamp b - timestamp a) / 60) (zip g (tl g))"

text \<open>
  The example of the specification: reverts at 0h, 1h and 2h by the editors \<open>A\<close>,
  \<open>B\<close>, \<open>A\<close>.
\<close>

definition example_episode :: "revert list" where
  "example_episode =
     [\<lparr>timestamp = 0, user = ''A'', comment = ''rv'', size_bytes = 10\<rparr>,
      \<lparr>timestamp = 3600, user = ''B'', comment = ''undo'', size_bytes = 12\<rparr>,
      \<lparr>timestamp = 7200, user = ''A'', comment = ''rv'', size_bytes = 10\<rparr>]"

subsection \<open>Three-revert-rule scan\<close>

text \<open>
  The revisions of one editor, in the order of the history, and the editors in the order
  of their first revision.
\<close>

definition own_revisions :: "string \<Rightarrow> revision list \<Rightarrow> revision list" where
  "own_revisions u revs = filter (\<lambda>r. editor_of r = u) revs"

definition editors_in_order :: "revision list \<Rightarrow> string list" where
  "editors_in_order revs = rev (remdups (rev (map editor_of revs)))"

text \<open>
  Within the revisions \<open>xs\<close> of one editor, the pair at index \<open>i\<close> is the revision
  \<open>xs ! i\<close> with its predecessor \<open>xs ! (i - 1)\<close>. The size delta of the pair is small
  when both sizes are present and differ by less than 100 bytes. The running counter at
  \<open>i\<close> is the number of small deltas among the pairs \<open>1, \<dots>, i\<close>: it never resets. The gap
  of the pair is the time between the two revisions, in hours.
\<close>

definition small_delta :: "revision list \<Rightarrow> nat \<Rightarrow> bool" where
  "small_delta xs i =
     (case (rev_size (xs ! i), rev_size (xs ! (i - 1))) of
        (Some a, Some b) \<Rightarrow> \<bar>a - b\<bar> < 100
      | _ \<Rightarrow> False)"

definition running_counter :: "revision list \<Rightarrow> nat \<Rightarrow> nat" where
  "running_counter xs i = length (filter (small_delta xs) [1..<Suc i])"

definition timestamp_of :: "revision \<Rightarrow> int" where
  "timestamp_of r = the (rev_timestamp r)"

definition gap_hours :: "revision list \<Rightarrow> nat \<Rightarrow> rat" where
  "gap_hours xs i = of_int (timestamp_of (xs ! i) - timestamp_of (xs ! (i - 1))) / 3600"

text \<open>
  The pair at \<open>i\<close> triggers when its gap is at most 24 hours and the running counter has
  reached 3. The violation of an editor, if any, is reported at the first pair that
  triggers, and only for an editor with at least 4 revisions: it carries the timestamp of
  the current revision, the value of the running counter and the gap.
\<close>

definition trigger :: "revision list \<Rightarrow> nat \<Rightarrow> bool" where
  "trigger xs i = (gap_hours xs i \<le> 24 \<and> 3 \<le> running_counter xs i)"

definition first_trigger :: "revision list \<Rightarrow> nat option" where
  "first_trigger xs = find (trigger xs) [1..<length xs]"

definition violation_at :: "string \<Rightarrow> revision list \<Rightarrow> nat \<Rightarrow> violation" where
  "violation_at u xs i =
     \<lparr>v_user = u,
      v_timestamp = timestamp_of (xs ! i),
      v_revert_count = running_counter xs i,
      v_time_window_hours = gap_hours xs i\<rparr>"

definition expected_violation :: "string \<Rightarrow> revision list \<Rightarrow> violation option" where
  "expected_violation u xs =
     (if 4 \<le> length xs then map_option (violation_at u xs) (first_trigger xs) else None)"

text \<open>
  A history of two editors: \<open>Ann\<close> has five revisions whose sizes differ by 5 bytes, an
  hour apart; \<open>Bob\<close> has three, one of them without a timestamp.
\<close>

definition example_scan_history :: "revision list" where
  "example_scan_history =
     [\<lparr>rev_timestamp = Some 0, rev_user = Some ''Ann'', rev_comment = Some ''a'',
       rev_size = Some 1000, rev_revid = Some 1, rev_parentid = None\<rparr>,
      \<lparr>rev_timestamp = Some 1800, rev_user = Some ''Bob'', rev_comment = Some ''b'',
       rev_size = Some 1001, rev_revid = Some 2, rev_parentid = Some 1\<rparr>,
      \<lparr>rev_timestamp = Some 3600, rev_user = Some ''Ann'', rev_comment = Some ''c'',
       rev_size = Some 1005, rev_revid = Some 3, rev_parentid = Some 2\<rparr>,
      \<lparr>rev_timestamp = None, rev_user = Some ''Bob'', rev_comment = Some ''d'',
       rev_size = Some 1006, rev_revid = Some 4, rev_parentid = Some 3\<rparr>,
      \<lparr>rev_timestamp = Some 7200, rev_user = Some ''Ann'', rev_comment = Some ''e'',
       rev_size = Some 1010, rev_revid = Some 5, rev_parentid = Some 4\<rparr>,
      \<lparr>rev_timestamp = Some 9000, rev_user = Some ''Bob'', rev_comment = Some ''f'',
       rev_size = Some 1011, rev_revid = Some 6, rev_parentid = Some 5\<rparr>,
      \<lparr>rev_timestamp = Some 10800, rev_user = Some ''Ann'', rev_comment = Some ''g'',
       rev_size = Some 1015, rev_revid = Some 7, rev_parentid = Some 6\<rparr>,
      \<lparr>rev_timestamp = Some 14400, rev_user = Some ''Ann'', rev_comment = Some ''h'',
       rev_size = Some 1020, rev_revid = Some 8, rev_parentid = Some 7\<rparr>]"

section \<open>Properties of episode grouping\<close>

lemma maximal_runs_nonempty: "maximal_runs w (r # rs) \<noteq> []"
  by (induction rs arbitrary: r) (auto split: list.splits)

lemma maximal_runs_hd: "maximal_runs w (r # rs) = g # gs \<Longrightarrow> \<exists>g'. g = r # g'"
  by (cases rs) (auto split: list.splits if_splits)

lemma concat_maximal_runs: "concat (maximal_runs w rs) = rs"
  by (induction w rs rule: maximal_runs.induct) (auto split: list.splits)

lemma group_loop_runs:
  "group_loop w m prev rest groups (c @ [prev]) =
     groups @ filter (\<lambda>g. m \<le> length g)
       (case maximal_runs w (prev # rest) of [] \<Rightarrow> [] | g # gs \<Rightarrow> (c @ g) # gs)"
proof (induction rest arbitrary: prev groups c)
  case Nil
  then show ?case by simp
next
  case (Cons cur rest)
  obtain g gs where mr: "maximal_runs w (cur # rest) = (cur # g) # gs"
    using maximal_runs_nonempty[of w cur rest] maximal_runs_hd[of w cur rest]
    by (cases "maximal_runs w (cur # rest)") auto
  show ?case
  proof (cases "hours_between prev cur \<le> w")
    case True
    have "group_loop w m prev (cur # rest) groups (c @ [prev]) =
          group_loop w m cur rest groups ((c @ [prev]) @ [cur])"
      using True by simp
    also have "\<dots> = groups @ filter (\<lambda>g. m \<le> length g) (((c @ [prev]) @ cur # g) # gs)"
      using Cons.IH[of cur groups "c @ [prev]"] mr by simp
    finally show ?thesis using True mr by simp
  next
    case False
    have "group_loop w m prev (cur # rest) groups (c @ [prev]) =
          group_loop w m cur rest
            (if m \<le> length (c @ [prev]) then groups @ [c @ [prev]] else groups) ([] @ [cur])"
      using False by simp
    also have "\<dots> = (if m \<le> length (c @ [prev]) then groups @ [c @ [prev]] else groups) @
                     filter (\<lambda>g. m \<le> length g) ((cur # g) # gs)"
      using Cons.IH[of cur _ "[]"] mr by simp
    finally show ?thesis using False mr by simp
  qed
qed

lemma group_reverts_by_time_runs:
  "group_reverts_by_time w m rs = filter (\<lambda>g. m \<le> length g) (maximal_runs w rs)"
proof (cases rs)
  case Nil
  then show ?thesis by simp
next
  case (Cons r rest)
  then show ?thesis
    using group_loop_runs[of w m r rest "[]" "[]"] maximal_runs_nonempty[of w r rest]
    by (cases "maximal_runs w (r # rest)") auto
qed

lemma maximal_runs_members:
  "g \<in> set (maximal_runs w rs) \<Longrightarrow> g \<noteq> [] \<and> successively (\<lambda>a b. hours_between a b \<le> w) g"
proof (induction w rs arbitrary: g rule: maximal_runs.induct)
  case (1 w)
  then show ?case by simp
next
  case (2 w r)
  then show ?case by simp
next
  case (3 w r s rest)
  obtain h hs where mr: "maximal_runs w (s # rest) = (s # h) # hs"
    using maximal_runs_nonempty[of w s rest] maximal_runs_hd[of w s rest]
    by (cases "maximal_runs w (s # rest)") auto
  have ih: "\<And>g. g \<in> set ((s # h) # hs) \<Longrightarrow> g \<noteq> [] \<and> successively (\<lambda>a b. hours_between a b \<le> w) g"
    using "3.IH" mr by simp
  show ?case
  proof (cases "hours_between r s \<le> w")
    case True
    then have "g = r # s # h \<or> g \<in> set hs" using "3.prems" mr by simp
    then show ?thesis using ih[of "s # h"] ih[of g] True by auto
  next
    case False
    then have "g = [r] \<or> g \<in> set ((s # h) # hs)" using "3.prems" mr by simp
    then show ?thesis using ih by auto
  qed
qed

lemma maximal_runs_separated:
  "successively (\<lambda>g h. w < hours_between (last g) (hd h)) (maximal_runs w rs)"
proof (induction w rs rule: maximal_runs.induct)
  case (1 w)
  then show ?case by simp
next
  case (2 w r)
  then show ?case by simp
next
  case (3 w r s rest)
  obtain h hs where mr: "maximal_runs w (s # rest) = (s # h) # hs"
    using maximal_runs_nonempty[of w s rest] maximal_runs_hd[of w s rest]
    by (cases "maximal_runs w (s # rest)") auto
  have ih: "successively (\<lambda>g h. w < hours_between (last g) (hd h)) ((s # h) # hs)"
    using "3.IH" mr by simp
  show ?case
  proof (cases "hours_between r s \<le> w")
    case True
    then show ?thesis using ih mr by (cases hs) auto
  next
    case False
    then show ?thesis using ih mr by auto
  qed
qed

lemma maximal_runs_length: "g \<in> set (maximal_runs w rs) \<Longrightarrow> length g \<le> length rs"
proof -
  assume "g \<in> set (maximal_runs w rs)"
  then obtain xs ys where "maximal_runs w rs = xs @ g # ys" by (auto simp: in_set_conv_decomp)
  then have "concat (xs @ g # ys) = rs" using concat_maximal_runs[of w rs] by simp
  then have "length rs = length (concat xs) + length g + length (concat ys)" by auto
  then show ?thesis by simp
qed

lemma summary_group_loop_eq: "summary_group_loop prev rest groups cur = group_loop 24 3 prev rest groups cur"
  by (induction rest arbitrary: prev groups cur) (simp_all add: hours_between_def Let_def)

lemma quick_group_loop_eq: "quick_group_loop prev rest groups cur = group_loop 24 3 prev rest groups cur"
  by (induction rest arbitrary: prev groups cur) (simp_all add: hours_between_def Let_def)

lemma summary_revert_groups_eq:
  "summary_revert_groups rs =
     (if length rs < 3 \<or> group_reverts_by_time 24 3 rs = [] then None
      else Some (group_reverts_by_time 24 3 rs))"
  by (cases rs) (simp_all add: summary_revert_groups_def summary_group_loop_eq Let_def)

lemma quick_revert_groups_eq:
  "quick_revert_groups rs =
     (if length rs < 3 \<or> group_reverts_by_time 24 3 rs = [] then None
      else Some (group_reverts_by_time 24 3 rs))"
  by (cases rs) (simp_all add: quick_revert_groups_def quick_group_loop_eq Let_def)

text \<open>
  C2 (minimum-size invariant). Every group returned by the grouping step has at least
  \<open>min_reverts\<close> members; a list of fewer than \<open>min_reverts\<close> reverts, and the empty
  list, give no group at all, whatever the timestamps are. The grouping step of
  \<^verbatim>\<open>EditWarSummary.analyze_edit_war_patterns\<close> returns groups of at least three members,
  and nothing when there are fewer than three reverts.
\<close>

theorem episodes_have_min_reverts:
  "(\<forall>g \<in> set (group_reverts_by_time window_hours min_reverts rvs). min_reverts \<le> length g)
   \<and> (length rvs < min_reverts \<longrightarrow>
        group_reverts_by_time window_hours min_reverts rvs = [])
   \<and> group_reverts_by_time window_hours min_reverts ([] :: 'a revert_scheme list) = []
   \<and> (\<forall>gs. summary_revert_groups rs = Some gs \<longrightarrow> gs \<noteq> [] \<and> (\<forall>g \<in> set gs. 3 \<le> length g))
   \<and> (length rs < 3 \<longrightarrow> summary_revert_groups rs = None)"
proof -
  have a: "\<forall>g \<in> set (group_reverts_by_time window_hours min_reverts rvs). min_reverts \<le> length g"
    by (simp add: group_reverts_by_time_runs)
  have "\<forall>g \<in> set (group_reverts_by_time window_hours min_reverts rvs). length g \<le> length rvs"
    using maximal_runs_length by (auto simp: group_reverts_by_time_runs)
  with a have b: "length rvs < min_reverts \<longrightarrow>
        group_reverts_by_time window_hours min_reverts rvs = []"
    by (cases "group_reverts_by_time window_hours min_reverts rvs") fastforce+
  have c: "\<forall>gs. summary_revert_groups rs = Some gs \<longrightarrow> gs \<noteq> [] \<and> (\<forall>g \<in> set gs. 3 \<le> length g)"
    by (auto simp: summary_revert_groups_eq group_reverts_by_time_runs split: if_splits)
  have d: "length rs < 3 \<longrightarrow> summary_revert_groups rs = None"
    by (simp add: summary_revert_groups_eq)
  show ?thesis using a b c d by simp
qed

theorem episodes_have_min_reverts_witness:
  "group_reverts_by_time 24 3
     [\<lparr>timestamp = 0, user = ''A'', comment = ''rv'', size_bytes = 10\<rparr>,
      \<lparr>timestamp = 3600, user = ''B'', comment = ''undo'', size_bytes = 12\<rparr>,
      \<lparr>timestamp = 7200, user = ''A'', comment = ''rv'', size_bytes = 10\<rparr>]
   = [[\<lparr>timestamp = 0, user = ''A'', comment = ''rv'', size_bytes = 10\<rparr>,
       \<lparr>timestamp = 3600, user = ''B'', comment = ''undo'', size_bytes = 12\<rparr>,
       \<lparr>timestamp = 7200, user = ''A'', comment = ''rv'', size_bytes = 10\<rparr>]]
   \<and> 3 \<le> length
         [\<lparr>timestamp = 0, user = ''A'', comment = ''rv'', size_bytes = 10\<rparr>,
          \<lparr>timestamp = 3600, user = ''B'', comment = ''undo'', size_bytes = 12\<rparr>,
          \<lparr>timestamp = 7200, user = ''A'', comment = ''rv'', size_bytes = 10\<rparr>]
   \<and> length [\<lparr>timestamp = 0, user = ''A'', comment = ''rv'', size_bytes = 10\<rparr>,
              \<lparr>timestamp = 3600, user = ''B'', comment = ''undo'', size_bytes = 12\<rparr>] < 3
   \<and> group_reverts_by_time 24 3
         [\<lparr>timestamp = 0, user = ''A'', comment = ''rv'', size_bytes = 10\<rparr>,
          \<lparr>timestamp = 3600, user = ''B'', comment = ''undo'', size_bytes = 12\<rparr>] = []
   \<and> summary_revert_groups
         [\<lparr>timestamp = 0, user = ''A'', comment = ''rv'', size_bytes = 10\<rparr>,
          \<lparr>timestamp = 3600, user = ''B'', comment = ''undo'', size_bytes = 12\<rparr>,
          \<lparr>timestamp = 7200, user = ''A'', comment = ''rv'', size_bytes = 10\<rparr>]
       = Some [[\<lparr>timestamp = 0, user = ''A'', comment = ''rv'', size_bytes = 10\<rparr>,
                \<lparr>timestamp = 3600, user = ''B'', comment = ''undo'', size_bytes = 12\<rparr>,
                \<lparr>timestamp = 7200, user = ''A'', comment = ''rv'', size_bytes = 10\<rparr>]]
   \<and> summary_revert_groups
         [\<lparr>timestamp = 0, user = ''A'', comment = ''rv'', size_bytes = 10\<rparr>,
          \<lparr>timestamp = 3600, user = ''B'', comment = ''undo'', size_bytes = 12\<rparr>] = None"
  using episodes_have_min_reverts
          [of 24 3 "[\<lparr>timestamp = 0, user = ''A'', comment = ''rv'', size_bytes = 10\<rparr>,
                     \<lparr>timestamp = 3600, user = ''B'', comment = ''undo'', size_bytes = 12\<rparr>,
                     \<lparr>timestamp = 7200, user = ''A'', comment = ''rv'', size_bytes = 10\<rparr>]"
               "[\<lparr>timestamp = 0, user = ''A'', comment = ''rv'', size_bytes = 10\<rparr>,
                 \<lparr>timestamp = 3600, user = ''B'', comment = ''undo'', size_bytes = 12\<rparr>,
                 \<lparr>timestamp = 7200, user = ''A'', comment = ''rv'', size_bytes = 10\<rparr>]"]
        episodes_have_min_reverts
          [of 24 3 "[\<lparr>timestamp = 0, user = ''A'', comment = ''rv'', size_bytes = 10\<rparr>,
                \<lparr>timestamp = 3600, user = ''B'', comment = ''undo'', size_bytes = 12\<rparr>]"
              "[\<lparr>timestamp = 0, user = ''A'', comment = ''rv'', size_bytes = 10\<rparr>,
                \<lparr>timestamp = 3600, user = ''B'', comment = ''undo'', size_bytes = 12\<rparr>]"]
  by (simp add: hours_between_def summary_revert_groups_def Let_def)

text \<open>
  C3 (grouping against the previous event, inclusive, maximal). The reverts are cut into
  consecutive runs: inside a run every gap between neighbours is at most the window (a gap
  equal to the window stays inside), and the gap between the last revert of a run and the
  first of the next run is larger than the window. The groups returned are exactly the
  runs with at least \<open>min_reverts\<close> members, in order. The grouping step of
  \<^verbatim>\<open>analyze_edit_war_patterns_quick\<close> is the same function at 24 hours and 3 reverts.
\<close>

theorem episodes_are_maximal_runs:
  "(\<exists>runs. concat runs = rvs
      \<and> (\<forall>g \<in> set runs. g \<noteq> [] \<and> successively (\<lambda>a b. hours_between a b \<le> window_hours) g)
      \<and> successively (\<lambda>g h. hours_between (last g) (hd h) > window_hours) runs
      \<and> group_reverts_by_time window_hours min_reverts rvs
          = filter (\<lambda>g. min_reverts \<le> length g) runs)
   \<and> (\<forall>gs. quick_revert_groups qs = Some gs \<longrightarrow> gs = group_reverts_by_time 24 3 qs)"
proof -
  let ?runs = "maximal_runs window_hours rvs"
  have "concat ?runs = rvs" by (rule concat_maximal_runs)
  moreover have "\<forall>g \<in> set ?runs. g \<noteq> [] \<and> successively (\<lambda>a b. hours_between a b \<le> window_hours) g"
    using maximal_runs_members by blast
  moreover have "successively (\<lambda>g h. hours_between (last g) (hd h) > window_hours) ?runs"
    by (rule maximal_runs_separated)
  moreover have "group_reverts_by_time window_hours min_reverts rvs
          = filter (\<lambda>g. min_reverts \<le> length g) ?runs"
    by (rule group_reverts_by_time_runs)
  ultimately have "\<exists>runs. concat runs = rvs
      \<and> (\<forall>g \<in> set runs. g \<noteq> [] \<and> successively (\<lambda>a b. hours_between a b \<le> window_hours) g)
      \<and> successively (\<lambda>g h. hours_between (last g) (hd h) > window_hours) runs
      \<and> group_reverts_by_time window_hours min_reverts rvs
          = filter (\<lambda>g. min_reverts \<le> length g) runs"
    by blast
  moreover have "\<forall>gs. quick_revert_groups qs = Some gs \<longrightarrow> gs = group_reverts_by_time 24 3 qs"
    by (simp add: quick_revert_groups_eq)
  ultimately show ?thesis by blast
qed


theorem episodes_are_maximal_runs_witness:
  "group_reverts_by_time 24 3
     [\<lparr>timestamp = 0, user = ''A'', comment = ''rv'', size_bytes = 10\<rparr>,
      \<lparr>timestamp = 3600, user = ''B'', comment = ''undo'', size_bytes = 12\<rparr>,
      \<lparr>timestamp = 90000, user = ''A'', comment = ''rv'', size_bytes = 10\<rparr>,
      \<lparr>timestamp = 176401, user = ''B'', comment = ''undo'', size_bytes = 12\<rparr>]
   = [[\<lparr>timestamp = 0, user = ''A'', comment = ''rv'', size_bytes = 10\<rparr>,
       \<lparr>timestamp = 3600, user = ''B'', comment = ''undo'', size_bytes = 12\<rparr>,
       \<lparr>timestamp = 90000, user = ''A'', comment = ''rv'', size_bytes = 10\<rparr>]]
   \<and> (\<exists>runs. concat runs =
         [\<lparr>timestamp = 0, user = ''A'', comment = ''rv'', size_bytes = 10\<rparr>,
          \<lparr>timestamp = 3600, user = ''B'', comment = ''undo'', size_bytes = 12\<rparr>,
          \<lparr>timestamp = 90000, user = ''A'', comment = ''rv'', size_bytes = 10\<rparr>,
          \<lparr>timestamp = 176401, user = ''B'', comment = ''undo'', size_bytes = 12\<rparr>]
      \<and> (\<forall>g \<in> set runs. g \<noteq> [] \<and> successively (\<lambda>a b. hours_between a b \<le> 24) g)
      \<and> successively (\<lambda>g h. hours_between (last g) (hd h) > 24) runs
      \<and> [[\<lparr>timestamp = 0, user = ''A'', comment = ''rv'', size_bytes = 10\<rparr>,
           \<lparr>timestamp = 3600, user = ''B'', comment = ''undo'', size_bytes = 12\<rparr>,
           \<lparr>timestamp = 90000, user = ''A'', comment = ''rv'', size_bytes = 10\<rparr>]]
          = filter (\<lambda>g. 3 \<le> length g) runs)
   \<and> quick_revert_groups
       [\<lparr>timestamp = 0, user = ''A'', comment = ''rv'', size_bytes = 10\<rparr>,
        \<lparr>timestamp = 3600, user = ''B'', comment = ''undo'', size_bytes = 12\<rparr>,
        \<lparr>timestamp = 90000, user = ''A'', comment = ''rv'', size_bytes = 10\<rparr>,
        \<lparr>timestamp = 176401, user = ''B'', comment = ''undo'', size_bytes = 12\<rparr>]
      = Some (group_reverts_by_time 24 3
       [\<lparr>timestamp = 0, user = ''A'', comment = ''rv'', size_bytes = 10\<rparr>,
        \<lparr>timestamp = 3600, user = ''B'', comment = ''undo'', size_bytes = 12\<rparr>,
        \<lparr>timestamp = 90000, user = ''A'', comment = ''rv'', size_bytes = 10\<rparr>,
        \<lparr>timestamp = 176401, user = ''B'', comment = ''undo'', size_bytes = 12\<rparr>])"
proof -
  let ?rs = "[\<lparr>timestamp = 0, user = ''A'', comment = ''rv'', size_bytes = 10\<rparr>,
      \<lparr>timestamp = 3600, user = ''B'', comment = ''undo'', size_bytes = 12\<rparr>,
      \<lparr>timestamp = 90000, user = ''A'', comment = ''rv'', size_bytes = 10\<rparr>,
      \<lparr>timestamp = 176401, user = ''B'', comment = ''undo'', size_bytes = 12\<rparr>]"
  have ev: "group_reverts_by_time 24 3 ?rs = [take 3 ?rs]"
    by (simp add: hours_between_def)
  have q: "quick_revert_groups ?rs = Some [take 3 ?rs]"
    by (simp add: quick_revert_groups_def Let_def)
  show ?thesis
    using episodes_are_maximal_runs [of ?rs 24 3 ?rs] unfolding ev q by simp
qed

section \<open>Properties of revert classification\<close>



lemma indicators_quick: 
  "list_ex (\<lambda>indicator. str_contains indicator (lower (get_or (rev_comment r) ''''))) revert_indicators_quick
   = comment_matches r"
  by (simp add: comment_matches_def revert_indicators_quick_def)

lemma indicators_summary: 
  "list_ex (\<lambda>indicator. str_contains indicator (lower (get_or (rev_comment r) ''''))) revert_indicators_summary
   = comment_matches r"
  by (simp add: comment_matches_def revert_indicators_summary_def)


lemma detect_reverts_quick_loop_eq:
  "detect_reverts_quick_loop prev rest acc =
     (if \<forall>r \<in> set (filter comment_matches rest). rev_timestamp r \<noteq> None
      then Inr (acc @ map quick_event (filter comment_matches rest))
      else Inl (KeyError ''timestamp''))"
proof (induction rest arbitrary: prev acc)
  case Nil
  then show ?case by simp
next
  case (Cons cur rest)
  show ?case
  proof (cases "comment_matches cur")
    case False
    then show ?thesis by (simp add: indicators_quick Cons.IH Let_def)
  next
    case True
    show ?thesis
    proof (cases "rev_timestamp cur")
      case None
      then show ?thesis using True by (simp add: indicators_quick Let_def)
    next
      case (Some ts)
      then show ?thesis using True
        by (simp add: indicators_quick Cons.IH quick_event_def Let_def)
    qed
  qed
qed

lemma summary_detect_reverts_loop_eq:
  "summary_detect_reverts_loop prev rest acc =
     (if \<forall>r \<in> set (filter comment_matches rest). rev_timestamp r \<noteq> None
      then Inr (acc @ map quick_event (filter comment_matches rest))
      else Inl (KeyError ''timestamp''))"
proof (induction rest arbitrary: prev acc)
  case Nil
  then show ?case by simp
next
  case (Cons cur rest)
  show ?case
  proof (cases "comment_matches cur")
    case False
    then show ?thesis by (simp add: indicators_summary Cons.IH Let_def)
  next
    case True
    show ?thesis
    proof (cases "rev_timestamp cur")
      case None
      then show ?thesis using True by (simp add: indicators_summary Let_def)
    next
      case (Some ts)
      then show ?thesis using True
        by (simp add: indicators_summary Cons.IH quick_event_def Let_def)
    qed
  qed
qed








text \<open>
  C9 (missing optional fields). \<^verbatim>\<open>EditWarAnalyzer.detect_reverts\<close> reads the revision id
  with \<^verbatim>\<open>current_rev['revid']\<close>: a revision that passes both heuristics and has no
  revision id raises \<^verbatim>\<open>KeyError\<close>. \<^verbatim>\<open>EditWarSummary.detect_reverts\<close> and
  \<^verbatim>\<open>detect_reverts_quick\<close> return the revert on the same history.
\<close>

theorem detect_reverts_missing_revid:
  "detect_reverts
     [\<lparr>rev_timestamp = Some 0, rev_user = Some ''Ann'', rev_comment = Some ''new section'',
       rev_size = Some 1000, rev_revid = None, rev_parentid = None\<rparr>,
      \<lparr>rev_timestamp = Some 60, rev_user = Some ''Bob'', rev_comment = Some ''Reverted edits'',
       rev_size = Some 1010, rev_revid = None, rev_parentid = None\<rparr>]
   = Inl (KeyError ''revid'')
   \<and> summary_detect_reverts
     [\<lparr>rev_timestamp = Some 0, rev_user = Some ''Ann'', rev_comment = Some ''new section'',
       rev_size = Some 1000, rev_revid = None, rev_parentid = None\<rparr>,
      \<lparr>rev_timestamp = Some 60, rev_user = Some ''Bob'', rev_comment = Some ''Reverted edits'',
       rev_size = Some 1010, rev_revid = None, rev_parentid = None\<rparr>]
   = Inr [\<lparr>timestamp = 60, user = ''Bob'', comment = ''Reverted edits'', size_bytes = 1010\<rparr>]
   \<and> detect_reverts_quick
     [\<lparr>rev_timestamp = Some 0, rev_user = Some ''Ann'', rev_comment = Some ''new section'',
       rev_size = Some 1000, rev_revid = None, rev_parentid = None\<rparr>,
      \<lparr>rev_timestamp = Some 60, rev_user = Some ''Bob'', rev_comment = Some ''Reverted edits'',
       rev_size = Some 1010, rev_revid = None, rev_parentid = None\<rparr>]
   = Inr [\<lparr>timestamp = 60, user = ''Bob'', comment = ''Reverted edits'', size_bytes = 1010\<rparr>]"
  by (simp add: revert_indicators_def revert_indicators_summary_def revert_indicators_quick_def
        lower_def lower_char_def get_or_def size_ratio_def)

text \<open>
  What does hold of the optional fields: a revision without a comment never matches, and
  the comment-only classifiers fail on no history whose revisions after the first carry a
  timestamp, whatever else is missing.
\<close>

lemma missing_comment_never_matches: "rev_comment r = None \<Longrightarrow> \<not> comment_matches r"
  by (simp add: comment_matches_def get_or_def lower_def)

lemma comment_only_classifiers_total:
  assumes "\<forall>r \<in> set (tl revisions). rev_timestamp r \<noteq> None"
  shows "\<exists>out. summary_detect_reverts revisions = Inr out \<and> detect_reverts_quick revisions = Inr out"
proof (cases revisions)
  case Nil
  then show ?thesis by simp
next
  case (Cons r rest)
  then have "\<forall>r \<in> set (filter comment_matches rest). rev_timestamp r \<noteq> None"
    using assms by simp
  then show ?thesis
    using Cons detect_reverts_quick_loop_eq[of r rest "[]"] summary_detect_reverts_loop_eq[of r rest "[]"]
    by simp
qed

section \<open>Properties of editor participation\<close>

lemma counter_get_incr:
  "counter_get (counter_incr c k) k' = counter_get c k' + (if k = k' then 1 else 0)"
  by (induction c k rule: counter_incr.induct) auto

lemma keys_counter_incr: "fst ` set (counter_incr c k) = insert k (fst ` set c)"
  by (induction c k rule: counter_incr.induct) auto

lemma distinct_counter_incr: "distinct (map fst c) \<Longrightarrow> distinct (map fst (counter_incr c k))"
  by (induction c k rule: counter_incr.induct) (auto simp: keys_counter_incr)

lemma sum_counter_incr: "sum_list (map snd (counter_incr c k)) = sum_list (map snd c) + 1"
  by (induction c k rule: counter_incr.induct) auto

lemma counter_get_entry: "distinct (map fst c) \<Longrightarrow> (k, n) \<in> set c \<Longrightarrow> counter_get c k = n"
  by (induction c k rule: counter_get.induct) (auto simp: rev_image_eqI)

lemma counter_get_fold:
  "counter_get (fold (\<lambda>x c. counter_incr c (f x)) xs c) k
     = counter_get c k + count_list (map f xs) k"
  by (induction xs arbitrary: c) (auto simp: counter_get_incr)

lemma keys_fold:
  "fst ` set (fold (\<lambda>x c. counter_incr c (f x)) xs c) = fst ` set c \<union> f ` set xs"
  by (induction xs arbitrary: c) (auto simp: keys_counter_incr)

lemma distinct_fold:
  "distinct (map fst c) \<Longrightarrow> distinct (map fst (fold (\<lambda>x c. counter_incr c (f x)) xs c))"
  by (induction xs arbitrary: c) (auto simp: distinct_counter_incr)

lemma sum_fold:
  "sum_list (map snd (fold (\<lambda>x c. counter_incr c (f x)) xs c)) = sum_list (map snd c) + length xs"
  by (induction xs arbitrary: c) (auto simp: sum_counter_incr)

lemma editor_edits_entry:
  "(e, n) \<in> set (editor_edits_of revisions) \<Longrightarrow> n = count_list (map editor_of revisions) e"
proof -
  assume m: "(e, n) \<in> set (editor_edits_of revisions)"
  have d: "distinct (map fst (editor_edits_of revisions))"
    unfolding editor_edits_of_def by (rule distinct_fold) simp
  have "counter_get (editor_edits_of revisions) e = count_list (map editor_of revisions) e"
    unfolding editor_edits_of_def using counter_get_fold[of editor_of revisions "[]" e]
    by (simp add: editor_of_def[abs_def])
  then show ?thesis using counter_get_entry[OF d m] by simp
qed

lemma editor_edits_keys: "fst ` set (editor_edits_of revisions) = editor_of ` set revisions"
  unfolding editor_edits_of_def using keys_fold[of editor_of revisions "[]"]
  by (simp add: editor_of_def[abs_def])

lemma editor_edits_distinct: "distinct (map fst (editor_edits_of revisions))"
  unfolding editor_edits_of_def by (rule distinct_fold) simp

lemma editor_edits_sum: "sum_list (map snd (editor_edits_of revisions)) = length revisions"
  unfolding editor_edits_of_def using sum_fold[of editor_of revisions "[]"]
  by (simp add: editor_of_def[abs_def])

lemma breakdown_eq:
  "editor_breakdown (analyze_editor_participation revisions rvs) =
     map (\<lambda>(e, n). (e, \<lparr>total_edits = n,
                          reverts = count_list (map user rvs) e,
                          experience_level = tier_of n,
                          edit_percentage =
                            (if length revisions > 0 then of_nat n / of_nat (length revisions) * 100 else 0)\<rparr>))
       (editor_edits_of revisions)"
  using counter_get_fold[of user rvs "[]"]
  by (simp add: analyze_editor_participation_def Let_def editor_edits_of_def[symmetric]
        editor_edits_sum tier_of_def cong: if_cong)

lemma sum_shares:
  "sum_list (map (\<lambda>x. (of_nat (g x) :: rat) / c * 100) xs) = of_nat (sum_list (map g xs)) / c * 100"
  by (induction xs) (simp_all add: add_divide_distrib distrib_right)

lemma breakdown_total_edits:
  "map (total_edits \<circ> snd) (editor_breakdown (analyze_editor_participation revisions rvs))
     = map snd (editor_edits_of revisions)"
  by (simp add: breakdown_eq comp_def case_prod_beta)

lemma length_filter_keys:
  assumes "distinct (map fst E)"
  shows "length (filter Q E) = card (fst ` set (filter Q E))"
proof -
  have "distinct (map fst (filter Q E))" using assms by (rule distinct_map_filter)
  then have "card (set (map fst (filter Q E))) = length (map fst (filter Q E))"
    by (rule distinct_card)
  then show ?thesis by simp
qed

lemma tier_keys:
  "fst ` set (filter (\<lambda>x. Q (snd x)) (editor_edits_of revisions))
     = {e \<in> editor_of ` set revisions. Q (count_list (map editor_of revisions) e)}"
proof -
  have "\<And>e n. (e, n) \<in> set (editor_edits_of revisions) \<Longrightarrow> n = count_list (map editor_of revisions) e"
    by (rule editor_edits_entry)
  moreover have "\<And>e. e \<in> editor_of ` set revisions \<Longrightarrow> \<exists>n. (e, n) \<in> set (editor_edits_of revisions)"
    using editor_edits_keys[of revisions] by force
  moreover have "\<And>e n. (e, n) \<in> set (editor_edits_of revisions) \<Longrightarrow> e \<in> editor_of ` set revisions"
    using editor_edits_keys[of revisions] by force
  ultimately show ?thesis by (auto simp: image_iff) fastforce+
qed

lemma tier_count:
  "length (filter (\<lambda>p. experience_level p = t)
             (map snd (editor_breakdown (analyze_editor_participation revisions rvs))))
     = card {e \<in> editor_of ` set revisions. tier_of (count_list (map editor_of revisions) e) = t}"
proof -
  have "length (filter (\<lambda>p. experience_level p = t)
             (map snd (editor_breakdown (analyze_editor_participation revisions rvs))))
       = length (filter (\<lambda>x. tier_of (snd x) = t) (editor_edits_of revisions))"
    by (simp add: breakdown_eq filter_map comp_def case_prod_beta)
  also have "\<dots> = card (fst ` set (filter (\<lambda>x. tier_of (snd x) = t) (editor_edits_of revisions)))"
    by (rule length_filter_keys) (rule editor_edits_distinct)
  also have "\<dots> = card {e \<in> editor_of ` set revisions. tier_of (count_list (map editor_of revisions) e) = t}"
    by (simp only: tier_keys[of "\<lambda>n. tier_of n = t"])
  finally show ?thesis .
qed

lemma tier_of_cases:
  "tier_of n = ''new'' \<longleftrightarrow> n < 10"
  "tier_of n = ''intermediate'' \<longleftrightarrow> 10 \<le> n \<and> n < 100"
  "tier_of n = ''veteran'' \<longleftrightarrow> 100 \<le> n"
  by (auto simp: tier_of_def)

lemma breakdown_entry:
  assumes "(e, p) \<in> set (editor_breakdown (analyze_editor_participation revisions rvs))"
  shows "total_edits p = count_list (map editor_of revisions) e
       \<and> reverts p = count_list (map user rvs) e
       \<and> experience_level p = tier_of (total_edits p)
       \<and> edit_percentage p = of_nat (total_edits p) / of_nat (length revisions) * 100
       \<and> e \<in> editor_of ` set revisions"
proof -
  obtain n where n: "(e, n) \<in> set (editor_edits_of revisions)"
    and p: "p = \<lparr>total_edits = n,
                   reverts = count_list (map user rvs) e,
                   experience_level = tier_of n,
                   edit_percentage =
                     (if length revisions > 0 then of_nat n / of_nat (length revisions) * 100 else 0)\<rparr>"
    using assms unfolding breakdown_eq by auto
  have c: "n = count_list (map editor_of revisions) e" using n by (rule editor_edits_entry)
  have k: "e \<in> editor_of ` set revisions" using n editor_edits_keys[of revisions] by force
  then have "revisions \<noteq> []" by auto
  then show ?thesis using p c k by simp
qed

lemma counters_from_breakdown:
  "new_editors (analyze_editor_participation revisions rvs)
     = length (filter (\<lambda>p. experience_level p = ''new'')
                 (map snd (editor_breakdown (analyze_editor_participation revisions rvs))))"
  "intermediate_editors (analyze_editor_participation revisions rvs)
     = length (filter (\<lambda>p. experience_level p = ''intermediate'')
                 (map snd (editor_breakdown (analyze_editor_participation revisions rvs))))"
  "veteran_editors (analyze_editor_participation revisions rvs)
     = length (filter (\<lambda>p. experience_level p = ''veteran'')
                 (map snd (editor_breakdown (analyze_editor_participation revisions rvs))))"
  by (simp_all add: analyze_editor_participation_def Let_def comp_assoc)

lemma example_detect: "detect_reverts example_history = Inr example_reverts"
  by (simp add: example_history_def example_reverts_def revert_indicators_def
        lower_def lower_char_def get_or_def size_ratio_def)

lemma example_participation:
  "analyze_editor_participation example_history example_reverts
     = \<lparr>total_editors = 3, editor_breakdown = example_breakdown,
        new_editors = 3, intermediate_editors = 0, veteran_editors = 0\<rparr>"
  by (simp add: analyze_editor_participation_def example_history_def example_reverts_def
        example_breakdown_def get_or_def Let_def)

lemma example_busy_participation:
  "analyze_editor_participation example_busy_history ([] :: revert list)
     = \<lparr>total_editors = 2,
        editor_breakdown =
          [(''Ann'', \<lparr>total_edits = 10, reverts = 0, experience_level = ''intermediate'',
                      edit_percentage = 1000 / 11\<rparr>),
           (''Bob'', \<lparr>total_edits = 1, reverts = 0, experience_level = ''new'',
                      edit_percentage = 100 / 11\<rparr>)],
        new_editors = 1, intermediate_editors = 1, veteran_editors = 0\<rparr>"
  by (simp add: analyze_editor_participation_def example_busy_history_def get_or_def Let_def
        eval_nat_numeral)

text \<open>
  C6 (conservation). The edit counts of the profiles add up to the number of revisions,
  and for a non-empty history the edit shares add up to 100. Shares are exact rationals
  here; the source computes them in floating point.
\<close>

theorem edits_are_conserved:
  "sum_list (map (total_edits \<circ> snd)
               (editor_breakdown (analyze_editor_participation revisions rvs)))
     = length revisions
   \<and> (revisions \<noteq> [] \<longrightarrow>
        sum_list (map (edit_percentage \<circ> snd)
                    (editor_breakdown (analyze_editor_participation revisions rvs)))
          = 100)"
proof -
  have a: "sum_list (map (total_edits \<circ> snd)
               (editor_breakdown (analyze_editor_participation revisions rvs))) = length revisions"
    by (simp only: breakdown_total_edits editor_edits_sum)
  have b: "sum_list (map (edit_percentage \<circ> snd)
                    (editor_breakdown (analyze_editor_participation revisions rvs))) = 100"
    if ne: "revisions \<noteq> []"
  proof -
    have "map (edit_percentage \<circ> snd)
                    (editor_breakdown (analyze_editor_participation revisions rvs))
         = map (\<lambda>x. (of_nat (snd x) :: rat) / of_nat (length revisions) * 100) (editor_edits_of revisions)"
      using ne by (simp add: breakdown_eq comp_def case_prod_beta)
    moreover have "sum_list (map (\<lambda>x. (of_nat (snd x) :: rat) / of_nat (length revisions) * 100)
                        (editor_edits_of revisions))
         = of_nat (sum_list (map snd (editor_edits_of revisions))) / of_nat (length revisions) * 100"
      by (rule sum_shares)
    moreover have "(of_nat (sum_list (map snd (editor_edits_of revisions))) :: rat)
                     / of_nat (length revisions) * 100 = 100"
      using ne by (simp add: editor_edits_sum)
    ultimately show ?thesis by (simp only:)
  qed
  show ?thesis using a b by blast
qed

theorem edits_are_conserved_witness:
  "example_history \<noteq> []
   \<and> editor_breakdown (analyze_editor_participation example_history example_reverts)
       = example_breakdown
   \<and> sum_list (map (total_edits \<circ> snd)
         (editor_breakdown (analyze_editor_participation example_history example_reverts))) = 4
   \<and> sum_list (map (edit_percentage \<circ> snd)
         (editor_breakdown (analyze_editor_participation example_history example_reverts))) = 100"
  using edits_are_conserved [of example_history example_reverts]
  by (simp add: example_participation) (simp add: example_history_def)

text \<open>
  C7 (editor profiles). There is one profile per editor of the history. It holds the
  number of revisions of that editor, the number of revert events of that editor, the tier
  \<open>new\<close> below 10 edits, \<open>intermediate\<close> from 10 to 99 and \<open>veteran\<close> from 100 on, and
  the share of the editor's edits in the sum of all edit counts, times 100. A history with
  no edits has no profile. The aggregate counters are the number of editors, and the
  number of editors in each tier.
\<close>

theorem editor_profiles_characterised:
  "distinct (map fst (editor_breakdown (analyze_editor_participation revisions rvs)))
   \<and> fst ` set (editor_breakdown (analyze_editor_participation revisions rvs))
       = editor_of ` set revisions
   \<and> (\<forall>(e, p) \<in> set (editor_breakdown (analyze_editor_participation revisions rvs)).
         total_edits p = count_list (map editor_of revisions) e
       \<and> reverts p = count_list (map user rvs) e
       \<and> experience_level p =
           (if total_edits p < 10 then ''new''
            else if total_edits p < 100 then ''intermediate'' else ''veteran'')
       \<and> edit_percentage p =
           of_nat (total_edits p)
             / of_nat (sum_list (map (total_edits \<circ> snd)
                 (editor_breakdown (analyze_editor_participation revisions rvs)))) * 100)
   \<and> (revisions = [] \<longrightarrow> editor_breakdown (analyze_editor_participation revisions rvs) = [])
   \<and> total_editors (analyze_editor_participation revisions rvs)
       = card (editor_of ` set revisions)
   \<and> new_editors (analyze_editor_participation revisions rvs)
       = card {e \<in> editor_of ` set revisions. count_list (map editor_of revisions) e < 10}
   \<and> intermediate_editors (analyze_editor_participation revisions rvs)
       = card {e \<in> editor_of ` set revisions.
                 10 \<le> count_list (map editor_of revisions) e
               \<and> count_list (map editor_of revisions) e < 100}
   \<and> veteran_editors (analyze_editor_participation revisions rvs)
       = card {e \<in> editor_of ` set revisions. 100 \<le> count_list (map editor_of revisions) e}"
proof -
  let ?P = "analyze_editor_participation revisions rvs"
  have keys: "map fst (editor_breakdown ?P) = map fst (editor_edits_of revisions)"
    by (simp add: breakdown_eq comp_def case_prod_beta)
  have d: "distinct (map fst (editor_breakdown ?P))"
    by (simp only: keys editor_edits_distinct)
  have k: "fst ` set (editor_breakdown ?P) = editor_of ` set revisions"
    using keys editor_edits_keys[of revisions] by (metis list.set_map)
  have s: "sum_list (map (total_edits \<circ> snd) (editor_breakdown ?P)) = length revisions"
    by (simp only: breakdown_total_edits editor_edits_sum)
  have e: "\<forall>(e, p) \<in> set (editor_breakdown ?P).
         total_edits p = count_list (map editor_of revisions) e
       \<and> reverts p = count_list (map user rvs) e
       \<and> experience_level p =
           (if total_edits p < 10 then ''new''
            else if total_edits p < 100 then ''intermediate'' else ''veteran'')
       \<and> edit_percentage p =
           of_nat (total_edits p)
             / of_nat (sum_list (map (total_edits \<circ> snd) (editor_breakdown ?P))) * 100"
    unfolding s using breakdown_entry[of _ _ revisions rvs] by (auto simp: tier_of_def)
  have z: "revisions = [] \<longrightarrow> editor_breakdown ?P = []"
    by (simp add: breakdown_eq editor_edits_of_def)
  have t: "total_editors ?P = card (editor_of ` set revisions)"
  proof -
    have "total_editors ?P = length (map fst (editor_edits_of revisions))"
      by (simp add: analyze_editor_participation_def Let_def editor_edits_of_def)
    also have "\<dots> = card (set (map fst (editor_edits_of revisions)))"
      using editor_edits_distinct[of revisions] by (simp only: distinct_card)
    finally show ?thesis using editor_edits_keys[of revisions] by simp
  qed
  have tiers: "\<And>t. length (filter (\<lambda>p. experience_level p = t) (map snd (editor_breakdown ?P)))
     = card {e \<in> editor_of ` set revisions. tier_of (count_list (map editor_of revisions) e) = t}"
    by (rule tier_count)
  have n: "new_editors ?P
       = card {e \<in> editor_of ` set revisions. count_list (map editor_of revisions) e < 10}"
    by (simp only: counters_from_breakdown tiers tier_of_cases)
  have i: "intermediate_editors ?P
       = card {e \<in> editor_of ` set revisions.
                 10 \<le> count_list (map editor_of revisions) e
               \<and> count_list (map editor_of revisions) e < 100}"
    by (simp only: counters_from_breakdown tiers tier_of_cases)
  have v: "veteran_editors ?P
       = card {e \<in> editor_of ` set revisions. 100 \<le> count_list (map editor_of revisions) e}"
    by (simp only: counters_from_breakdown tiers tier_of_cases)
  show ?thesis using d k e z t n i v by blast
qed

theorem editor_profiles_characterised_witness:
  "editor_breakdown (analyze_editor_participation example_busy_history ([] :: revert list))
     = [(''Ann'', \<lparr>total_edits = 10, reverts = 0, experience_level = ''intermediate'',
                   edit_percentage = 1000 / 11\<rparr>),
        (''Bob'', \<lparr>total_edits = 1, reverts = 0, experience_level = ''new'',
                   edit_percentage = 100 / 11\<rparr>)]
   \<and> count_list (map editor_of example_busy_history) ''Ann'' = 10
   \<and> total_editors (analyze_editor_participation example_busy_history ([] :: revert list)) = 2
   \<and> new_editors (analyze_editor_participation example_busy_history ([] :: revert list)) = 1
   \<and> intermediate_editors
         (analyze_editor_participation example_busy_history ([] :: revert list)) = 1
   \<and> veteran_editors (analyze_editor_participation example_busy_history ([] :: revert list)) = 0"
proof -
  have c: "count_list (map editor_of example_busy_history) ''Ann'' = 10"
    using editor_profiles_characterised [of example_busy_history "[] :: revert list"]
    by (simp add: example_busy_participation)
  show ?thesis using c by (simp add: example_busy_participation)
qed

lemma detect_reverts_loop_users:
  "detect_reverts_loop prev rest acc = Inr out \<Longrightarrow>
   count_list (map user out) e \<le> count_list (map user acc) e + count_list (map editor_of rest) e"
proof (induction rest arbitrary: prev acc)
  case Nil
  then show ?case by simp
next
  case (Cons cur rest)
  from Cons.prems have
    "detect_reverts_loop cur rest acc = Inr out
     \<or> (\<exists>ev. user ev = editor_of cur \<and> detect_reverts_loop cur rest (acc @ [ev]) = Inr out)"
    by (fastforce simp: Let_def editor_of_def split: option.splits if_splits)
  then show ?case
  proof (elim disjE exE conjE)
    assume "detect_reverts_loop cur rest acc = Inr out"
    then show ?thesis using Cons.IH[of cur acc] by simp
  next
    fix ev
    assume "user ev = editor_of cur" "detect_reverts_loop cur rest (acc @ [ev]) = Inr out"
    then show ?thesis using Cons.IH[of cur "acc @ [ev]"] by (auto split: if_splits)
  qed
qed

lemma summary_detect_reverts_loop_users:
  "summary_detect_reverts_loop prev rest acc = Inr out \<Longrightarrow>
   count_list (map user out) e \<le> count_list (map user acc) e + count_list (map editor_of rest) e"
proof (induction rest arbitrary: prev acc)
  case Nil
  then show ?case by simp
next
  case (Cons cur rest)
  from Cons.prems have
    "summary_detect_reverts_loop cur rest acc = Inr out
     \<or> (\<exists>ev. user ev = editor_of cur \<and> summary_detect_reverts_loop cur rest (acc @ [ev]) = Inr out)"
    by (fastforce simp: Let_def editor_of_def split: option.splits if_splits)
  then show ?case
  proof (elim disjE exE conjE)
    assume "summary_detect_reverts_loop cur rest acc = Inr out"
    then show ?thesis using Cons.IH[of cur acc] by simp
  next
    fix ev
    assume "user ev = editor_of cur" "summary_detect_reverts_loop cur rest (acc @ [ev]) = Inr out"
    then show ?thesis using Cons.IH[of cur "acc @ [ev]"] by (auto split: if_splits)
  qed
qed

lemma detect_reverts_users:
  "detect_reverts revisions = Inr out \<Longrightarrow>
   count_list (map user out) e \<le> count_list (map editor_of revisions) e"
  using detect_reverts_loop_users[of _ _ "[]" out e]
  by (cases revisions) (auto simp: le_Suc_eq)

lemma summary_detect_reverts_users:
  "summary_detect_reverts revisions = Inr out \<Longrightarrow>
   count_list (map user out) e \<le> count_list (map editor_of revisions) e"
  using summary_detect_reverts_loop_users[of _ _ "[]" out e]
  by (cases revisions) (auto simp: le_Suc_eq)

text \<open>
  C10 (reverts bounded by edits). When the reverts are those the classifier returns for
  the history, no profile has more reverts than edits: each revert comes from one revision
  at an index \<open>i > 0\<close> and is attributed to the same editor, with the same
  \<open>Anonymous\<close> default.
\<close>

theorem reverts_bounded_by_edits:
  "(detect_reverts revisions = Inr rvs \<longrightarrow>
      (\<forall>(e, p) \<in> set (editor_breakdown (analyze_editor_participation revisions rvs)).
         reverts p \<le> total_edits p))
   \<and> (summary_detect_reverts revisions = Inr qrvs \<longrightarrow>
      (\<forall>(e, p) \<in> set (editor_breakdown (analyze_editor_participation revisions qrvs)).
         reverts p \<le> total_edits p))"
  using breakdown_entry[of _ _ revisions rvs] breakdown_entry[of _ _ revisions qrvs]
    detect_reverts_users[of revisions rvs] summary_detect_reverts_users[of revisions qrvs]
  by fastforce

theorem reverts_bounded_by_edits_witness:
  "detect_reverts example_history = Inr example_reverts
   \<and> (''Bob'', \<lparr>total_edits = 1, reverts = 1, experience_level = ''new'', edit_percentage = 25\<rparr>)
       \<in> set (editor_breakdown (analyze_editor_participation example_history example_reverts))
   \<and> reverts \<lparr>total_edits = 1, reverts = 1, experience_level = ''new'', edit_percentage = 25\<rparr>
       \<le> total_edits
           \<lparr>total_edits = 1, reverts = 1, experience_level = ''new'', edit_percentage = 25\<rparr>"
  using reverts_bounded_by_edits [of example_history example_reverts "[]"]
  by (simp add: example_detect example_participation example_breakdown_def)

section \<open>Properties of episode statistics\<close>

lemma intervals_loop_eq:
  "intervals_loop prev rest acc
     = acc @ map (\<lambda>(a, b). of_int (timestamp b - timestamp a) / 60) (zip (prev # rest) rest)"
  by (induction rest arbitrary: prev acc) simp_all

lemma revert_intervals_eq: "revert_intervals g = consecutive_gaps_minutes g"
  by (cases g) (simp_all add: revert_intervals_def consecutive_gaps_minutes_def intervals_loop_eq)

lemma length_consecutive_gaps: "length (consecutive_gaps_minutes g) = length g - 1"
  by (simp add: consecutive_gaps_minutes_def)

lemma consecutive_gaps_empty: "consecutive_gaps_minutes (r # rest) = [] \<longleftrightarrow> rest = []"
  by (simp add: consecutive_gaps_minutes_def)

lemma py_min_nonempty: "xs \<noteq> [] \<Longrightarrow> py_min xs = Inr (Min (set xs))"
proof (cases xs)
  case Nil
  assume "xs \<noteq> []"
  with Nil show ?thesis by simp
next
  case (Cons a list)
  then show ?thesis using Min.set_eq_fold[of a list] by simp
qed

lemma py_max_nonempty: "xs \<noteq> [] \<Longrightarrow> py_max xs = Inr (Max (set xs))"
proof (cases xs)
  case Nil
  assume "xs \<noteq> []"
  with Nil show ?thesis by simp
next
  case (Cons a list)
  then show ?thesis using Max.set_eq_fold[of a list] by simp
qed

lemma library_functions_on_empty:
  "np_mean [] = NaN" "np_median [] = NaN" "py_min [] = Inl ValueError"
  "py_max [] = Inl ValueError" "py_truediv a 0 = Inl ZeroDivisionError"
  by (simp_all add: np_mean_def np_median_def py_truediv_def)

text \<open>
  C8 (statistics of an episode). For every episode \<open>r # rest\<close> the analysis returns a
  record and raises nothing. Its interval list is the list of gaps between consecutive
  members, in minutes, of length (member count - 1), and the record holds the mean, the
  median, the minimum and the maximum of that list. For a single member the interval list
  is empty and the four statistics are 0: the guard keeps \<^verbatim>\<open>np.mean\<close>,
  \<^verbatim>\<open>np.median\<close>, \<^verbatim>\<open>min\<close>, \<^verbatim>\<open>max\<close> and the division by the length away from
  the empty list, on which they return \<^verbatim>\<open>nan\<close> or raise. The same holds of the
  per-group step of \<^verbatim>\<open>analyze_edit_war_patterns_quick\<close> and its average.
\<close>

theorem episode_statistics_safe:
  "analyze_edit_war_group (r # rest)
     = Inr \<lparr>start_time = timestamp r,
            end_time = timestamp (last (r # rest)),
            duration_hours = of_int (timestamp (last (r # rest)) - timestamp r) / 3600,
            revert_count = length (r # rest),
            unique_editors = card (user ` set (r # rest)),
            editors = user ` set (r # rest),
            avg_interval_minutes =
              Num (if rest = [] then 0
                   else sum_list (consecutive_gaps_minutes (r # rest)) / of_nat (length rest)),
            median_interval_minutes =
              Num (if rest = [] then 0 else middle_value (consecutive_gaps_minutes (r # rest))),
            min_interval_minutes =
              (if rest = [] then 0 else Min (set (consecutive_gaps_minutes (r # rest)))),
            max_interval_minutes =
              (if rest = [] then 0 else Max (set (consecutive_gaps_minutes (r # rest))))\<rparr>
   \<and> revert_intervals (r # rest) = consecutive_gaps_minutes (r # rest)
   \<and> length (consecutive_gaps_minutes (r # rest)) = length (r # rest) - 1
   \<and> analyze_edit_war_group [r]
       = Inr \<lparr>start_time = timestamp r, end_time = timestamp r, duration_hours = 0,
              revert_count = 1, unique_editors = 1, editors = {user r},
              avg_interval_minutes = Num 0, median_interval_minutes = Num 0,
              min_interval_minutes = 0, max_interval_minutes = 0\<rparr>
   \<and> quick_edit_war (q # qs)
       = Inr \<lparr>q_revert_count = length (q # qs),
              q_duration_hours = of_int (timestamp (last (q # qs)) - timestamp q) / 3600,
              q_unique_editors = card (user ` set (q # qs)),
              q_editors = user ` set (q # qs),
              q_avg_interval_minutes =
                (if qs = [] then 0
                 else sum_list (consecutive_gaps_minutes (q # qs)) / of_nat (length qs)),
              q_start_time = timestamp q,
              q_end_time = timestamp (last (q # qs))\<rparr>
   \<and> quick_edit_war [q]
       = Inr \<lparr>q_revert_count = 1, q_duration_hours = 0, q_unique_editors = 1,
              q_editors = {user q}, q_avg_interval_minutes = 0,
              q_start_time = timestamp q, q_end_time = timestamp q\<rparr>"
proof -
  have gen: "analyze_edit_war_group (r # rest)
     = Inr \<lparr>start_time = timestamp r,
            end_time = timestamp (last (r # rest)),
            duration_hours = of_int (timestamp (last (r # rest)) - timestamp r) / 3600,
            revert_count = length (r # rest),
            unique_editors = card (user ` set (r # rest)),
            editors = user ` set (r # rest),
            avg_interval_minutes =
              Num (if rest = [] then 0
                   else sum_list (consecutive_gaps_minutes (r # rest)) / of_nat (length rest)),
            median_interval_minutes =
              Num (if rest = [] then 0 else middle_value (consecutive_gaps_minutes (r # rest))),
            min_interval_minutes =
              (if rest = [] then 0 else Min (set (consecutive_gaps_minutes (r # rest)))),
            max_interval_minutes =
              (if rest = [] then 0 else Max (set (consecutive_gaps_minutes (r # rest))))\<rparr>"
    for r :: "'a revert_scheme" and rest
  proof (cases "rest = []")
    case True
    then show ?thesis
      by (simp add: analyze_edit_war_group_def revert_intervals_eq consecutive_gaps_minutes_def
            Let_def)
  next
    case False
    then have ne: "consecutive_gaps_minutes (r # rest) \<noteq> []"
      by (simp add: consecutive_gaps_empty)
    have len: "length (consecutive_gaps_minutes (r # rest)) = length rest"
      by (simp add: length_consecutive_gaps)
    show ?thesis
      using False ne
      by (simp add: analyze_edit_war_group_def revert_intervals_eq Let_def np_mean_def
            np_median_def py_min_nonempty py_max_nonempty len)
  qed
  have single: "analyze_edit_war_group [r]
       = Inr \<lparr>start_time = timestamp r, end_time = timestamp r, duration_hours = 0,
              revert_count = 1, unique_editors = 1, editors = {user r},
              avg_interval_minutes = Num 0, median_interval_minutes = Num 0,
              min_interval_minutes = 0, max_interval_minutes = 0\<rparr>"
    using gen[of r "[]"] by simp
  have qgen: "quick_edit_war (q # qs)
       = Inr \<lparr>q_revert_count = length (q # qs),
              q_duration_hours = of_int (timestamp (last (q # qs)) - timestamp q) / 3600,
              q_unique_editors = card (user ` set (q # qs)),
              q_editors = user ` set (q # qs),
              q_avg_interval_minutes =
                (if qs = [] then 0
                 else sum_list (consecutive_gaps_minutes (q # qs)) / of_nat (length qs)),
              q_start_time = timestamp q,
              q_end_time = timestamp (last (q # qs))\<rparr>"
    for q qs
  proof (cases "qs = []")
    case True
    then show ?thesis
      by (simp add: quick_edit_war_def revert_intervals_eq consecutive_gaps_minutes_def Let_def)
  next
    case False
    then have ne: "consecutive_gaps_minutes (q # qs) \<noteq> []"
      by (simp add: consecutive_gaps_empty)
    have len: "length (consecutive_gaps_minutes (q # qs)) = length qs"
      by (simp add: length_consecutive_gaps)
    show ?thesis
      using False ne
      by (simp add: quick_edit_war_def revert_intervals_eq Let_def py_truediv_def len)
  qed
  have qsingle: "quick_edit_war [q]
       = Inr \<lparr>q_revert_count = 1, q_duration_hours = 0, q_unique_editors = 1,
              q_editors = {user q}, q_avg_interval_minutes = 0,
              q_start_time = timestamp q, q_end_time = timestamp q\<rparr>"
    using qgen[of q "[]"] by simp
  show ?thesis
    using gen[of r rest] single qgen[of q qs] qsingle
    by (simp only: revert_intervals_eq length_consecutive_gaps simp_thms)
qed

theorem episode_statistics_safe_witness:
  "analyze_edit_war_group example_episode
     = Inr \<lparr>start_time = 0, end_time = 7200, duration_hours = 2, revert_count = 3,
            unique_editors = 2, editors = {''A'', ''B''},
            avg_interval_minutes = Num 60, median_interval_minutes = Num 60,
            min_interval_minutes = 60, max_interval_minutes = 60\<rparr>
   \<and> revert_intervals example_episode = [60, 60]
   \<and> quick_edit_war example_episode
       = Inr \<lparr>q_revert_count = 3, q_duration_hours = 2, q_unique_editors = 2,
              q_editors = {''A'', ''B''}, q_avg_interval_minutes = 60,
              q_start_time = 0, q_end_time = 7200\<rparr>"
proof -
  have g: "consecutive_gaps_minutes example_episode = [60, 60]"
    by (simp add: consecutive_gaps_minutes_def example_episode_def)
  have m: "middle_value [60, 60] = 60"
    by (simp add: middle_value_def)
  have e: "example_episode = hd example_episode # tl example_episode"
    by (simp add: example_episode_def)
  show ?thesis
    using episode_statistics_safe
            [of "hd example_episode" "tl example_episode" "hd example_episode" "tl example_episode"]
    unfolding e[symmetric] g m
    by (simp add: example_episode_def insert_commute)
qed

section \<open>Properties of the three-revert-rule scan\<close>

lemma dict_append_map:
  "distinct ks \<Longrightarrow> dict_append (map (\<lambda>u. (u, f u)) ks) e r
     = map (\<lambda>u. (u, if u = e then f u @ [r] else f u)) ks
       @ (if e \<in> set ks then [] else [(e, [r])])"
  by (induction ks) auto

lemma editors_in_order_snoc:
  "editors_in_order (revs @ [r])
     = (if editor_of r \<in> set (editors_in_order revs) then editors_in_order revs
        else editors_in_order revs @ [editor_of r])"
  by (simp add: editors_in_order_def)

lemma set_editors_in_order: "set (editors_in_order revs) = editor_of ` set revs"
  by (simp add: editors_in_order_def)

lemma distinct_editors_in_order: "distinct (editors_in_order revs)"
  by (simp add: editors_in_order_def)

lemma user_revisions_eq:
  "fold (\<lambda>rev d. dict_append d (get_or (rev_user rev) ''Anonymous'') rev) revs []
     = map (\<lambda>u. (u, own_revisions u revs)) (editors_in_order revs)"
proof (induction revs rule: rev_induct)
  case Nil
  then show ?case by (simp add: editors_in_order_def)
next
  case (snoc r revs)
  have none: "editor_of r \<notin> set (editors_in_order revs) \<Longrightarrow> own_revisions (editor_of r) revs = []"
    unfolding set_editors_in_order own_revisions_def filter_empty_conv by (metis imageI)
  have "fold (\<lambda>rev d. dict_append d (get_or (rev_user rev) ''Anonymous'') rev) (revs @ [r]) []
        = dict_append (map (\<lambda>u. (u, own_revisions u revs)) (editors_in_order revs)) (editor_of r) r"
    using snoc by (simp add: editor_of_def)
  also have "\<dots> = map (\<lambda>u. (u, own_revisions u (revs @ [r]))) (editors_in_order (revs @ [r]))"
    using none
    by (simp add: dict_append_map[OF distinct_editors_in_order] editors_in_order_snoc)
       (auto simp: own_revisions_def)
  finally show ?case .
qed

lemma timestamp_keys_eq:
  "\<forall>r \<in> set xs. rev_timestamp r \<noteq> None \<Longrightarrow> timestamp_keys xs = Inr (map timestamp_of xs)"
  by (induction xs) (auto simp: timestamp_of_def)

lemma insort_decorated:
  "\<forall>p \<in> set ps. fst p = f (snd p) \<Longrightarrow>
   map snd (insort_key fst (f x, x) ps) = insort_key f x (map snd ps)"
  by (induction ps) auto

lemma sort_decorated:
  "map snd (sort_key fst (zip (map f xs) xs)) = sort_key f xs
   \<and> (\<forall>p \<in> set (sort_key fst (zip (map f xs) xs)). fst p = f (snd p))"
proof (induction xs)
  case Nil
  then show ?case by simp
next
  case (Cons x xs)
  then show ?case
    using insort_decorated[of "sort_key fst (zip (map f xs) xs)" f x]
    by (auto simp: sort_key_def[symmetric] set_insort_key)
qed

lemma sort_by_timestamp_eq:
  "\<forall>r \<in> set xs. rev_timestamp r \<noteq> None \<Longrightarrow>
   sort_by_timestamp xs = Inr (sort_key timestamp_of xs)"
  by (simp add: sort_by_timestamp_def timestamp_keys_eq sort_decorated)

lemma running_counter_0: "running_counter xs 0 = 0"
  by (simp add: running_counter_def)

lemma running_counter_Suc:
  "running_counter xs (Suc k) = running_counter xs k + (if small_delta xs (Suc k) then 1 else 0)"
  by (simp add: running_counter_def)

lemma scan_loop_eq:
  assumes "\<forall>r \<in> set xs. rev_timestamp r \<noteq> None" and "xs = pre @ prev # rest"
  shows "scan_loop u prev rest (running_counter xs (length pre))
           = Inr (map_option (violation_at u xs) (find (trigger xs) [Suc (length pre)..<length xs]))"
  using assms
proof (induction rest arbitrary: pre prev)
  case Nil
  then show ?case by simp
next
  case (Cons cur rest)
  let ?i = "Suc (length pre)"
  have xs: "xs = (pre @ [prev]) @ cur # rest" using Cons.prems by simp
  have cur: "xs ! ?i = cur" and prev: "xs ! (?i - 1) = prev"
    using Cons.prems(2) by (simp_all add: nth_append)
  have lt: "?i < length xs" using Cons.prems(2) by simp
  obtain tc tp where tc: "rev_timestamp cur = Some tc" and tp: "rev_timestamp prev = Some tp"
    using Cons.prems by auto
  have gap: "gap_hours xs ?i = of_int (tc - tp) / 3600"
    using cur prev tc tp by (simp add: gap_hours_def timestamp_of_def)
  have sd: "small_delta xs ?i =
              (case (rev_size cur, rev_size prev) of
                 (Some a, Some b) \<Rightarrow> \<bar>a - b\<bar> < 100
               | _ \<Rightarrow> False)"
    using cur prev by (simp add: small_delta_def)
  have cnt: "(case (rev_size cur, rev_size prev) of
                (Some cur_size, Some prev_size) \<Rightarrow>
                  (if \<bar>cur_size - prev_size\<bar> < 100 then running_counter xs (length pre) + 1
                   else running_counter xs (length pre))
              | _ \<Rightarrow> running_counter xs (length pre))
             = running_counter xs ?i"
    by (simp add: running_counter_Suc sd Let_def split: option.splits)
  have ih: "scan_loop u cur rest (running_counter xs ?i)
              = Inr (map_option (violation_at u xs) (find (trigger xs) [Suc ?i..<length xs]))"
    using Cons.IH[of "pre @ [prev]" cur] Cons.prems(1) xs by simp
  have upt: "[?i..<length xs] = ?i # [Suc ?i..<length xs]"
    using lt by (rule upt_conv_Cons)
  have step: "scan_loop u prev (cur # rest) (running_counter xs (length pre))
        = (if of_int (tc - tp) / 3600 \<le> (24 :: rat) \<and> 3 \<le> running_counter xs ?i
           then Inr (Some \<lparr>v_user = u, v_timestamp = tc,
                            v_revert_count = running_counter xs ?i,
                            v_time_window_hours = of_int (tc - tp) / 3600\<rparr>)
           else scan_loop u cur rest (running_counter xs ?i))"
    by (simp only: scan_loop.simps tc tp option.case Let_def cnt)
  have trig: "(of_int (tc - tp) / 3600 \<le> (24 :: rat) \<and> 3 \<le> running_counter xs ?i)
                = trigger xs ?i"
    by (simp only: trigger_def gap)
  have va: "\<lparr>v_user = u, v_timestamp = tc, v_revert_count = running_counter xs ?i,
              v_time_window_hours = of_int (tc - tp) / 3600\<rparr> = violation_at u xs ?i"
    by (simp only: violation_at_def gap cur timestamp_of_def tc option.sel)
  have step': "scan_loop u prev (cur # rest) (running_counter xs (length pre))
        = (if trigger xs ?i then Inr (Some (violation_at u xs ?i))
           else scan_loop u cur rest (running_counter xs ?i))"
    by (simp only: step trig va)
  show ?case
    unfolding step' upt ih by simp
qed

lemma scan_whole:
  assumes "\<forall>r \<in> set (first_rev # others). rev_timestamp r \<noteq> None"
  shows "scan_loop u first_rev others 0
           = Inr (map_option (violation_at u (first_rev # others)) (first_trigger (first_rev # others)))"
  using scan_loop_eq[OF assms, of "[]" first_rev others u]
  by (simp add: running_counter_0 first_trigger_def)

lemma user_step:
  assumes "4 \<le> length revs \<longrightarrow> (\<forall>r \<in> set revs. rev_timestamp r \<noteq> None)"
  shows "violations_loop ((u, revs) # rest) acc
           = violations_loop rest
               (acc @ (case expected_violation u (sort_key timestamp_of revs) of
                         None \<Rightarrow> [] | Some v \<Rightarrow> [v]))"
proof (cases "4 \<le> length revs")
  case False
  then show ?thesis by (simp add: expected_violation_def)
next
  case True
  let ?s = "sort_key timestamp_of revs"
  have all: "\<forall>r \<in> set revs. rev_timestamp r \<noteq> None" using assms True by simp
  have srt: "sort_by_timestamp revs = Inr ?s" using all by (rule sort_by_timestamp_eq)
  have len: "4 \<le> length ?s" using True by simp
  then obtain first_rev others where s: "?s = first_rev # others" by (cases ?s) auto
  have "\<forall>r \<in> set ?s. rev_timestamp r \<noteq> None" using all by simp
  then have ts: "\<forall>r \<in> set (first_rev # others). rev_timestamp r \<noteq> None" by (simp only: s)
  have scan: "scan_loop u first_rev others 0
                = Inr (map_option (violation_at u ?s) (first_trigger ?s))"
    using scan_whole[OF ts, of u] by (simp only: s)
  have ev: "expected_violation u ?s = map_option (violation_at u ?s) (first_trigger ?s)"
    using len by (simp only: expected_violation_def if_True)
  show ?thesis
  proof (cases "first_trigger ?s")
    case None
    then show ?thesis
      using True srt scan ev by (simp add: s)
  next
    case (Some i)
    then show ?thesis
      using True srt scan ev by (simp add: s)
  qed
qed

lemma violations_loop_eq:
  assumes "\<forall>u \<in> set ks. 4 \<le> length (f u) \<longrightarrow> (\<forall>r \<in> set (f u). rev_timestamp r \<noteq> None)"
  shows "violations_loop (map (\<lambda>u. (u, f u)) ks) acc
           = Inr (acc @ List.map_filter
                          (\<lambda>u. expected_violation u (sort_key timestamp_of (f u))) ks)"
  using assms
proof (induction ks arbitrary: acc)
  case Nil
  then show ?case by (simp add: List.map_filter_simps)
next
  case (Cons k ks)
  have ts: "4 \<le> length (f k) \<longrightarrow> (\<forall>r \<in> set (f k). rev_timestamp r \<noteq> None)"
    using Cons.prems by simp
  have ih: "\<And>a. violations_loop (map (\<lambda>u. (u, f u)) ks) a
           = Inr (a @ List.map_filter
                          (\<lambda>u. expected_violation u (sort_key timestamp_of (f u))) ks)"
    using Cons.IH Cons.prems by simp
  show ?case
    using user_step[OF ts, of k "map (\<lambda>u. (u, f u)) ks" acc]
    by (cases "expected_violation k (sort_key timestamp_of (f k))")
       (simp_all add: ih List.map_filter_simps del: violations_loop.simps)
qed

lemma expected_violation_user: "expected_violation u xs = Some v \<Longrightarrow> v_user v = u"
  by (auto simp: expected_violation_def violation_at_def split: if_splits)

lemma map_filter_users:
  "(\<And>u v. f u = Some v \<Longrightarrow> v_user v = u) \<Longrightarrow>
   map v_user (List.map_filter f ks) = filter (\<lambda>u. f u \<noteq> None) ks"
  by (induction ks) (auto simp: List.map_filter_simps split: option.splits)

lemma own_sorted:
  "sorted (map timestamp_of revs) \<Longrightarrow> sort_key timestamp_of (own_revisions u revs) = own_revisions u revs"
  unfolding own_revisions_def by (intro sort_key_id_if_sorted sorted_filter)

lemma detect_three_revert_violations_eq:
  assumes "\<forall>r \<in> set revisions.
             4 \<le> length (own_revisions (editor_of r) revisions) \<longrightarrow> rev_timestamp r \<noteq> None"
  shows "detect_three_revert_violations revisions
           = Inr (List.map_filter
                    (\<lambda>u. expected_violation u (sort_key timestamp_of (own_revisions u revisions)))
                    (editors_in_order revisions))"
proof -
  have own: "\<forall>u \<in> set (editors_in_order revisions).
               4 \<le> length (own_revisions u revisions) \<longrightarrow>
               (\<forall>r \<in> set (own_revisions u revisions). rev_timestamp r \<noteq> None)"
  proof (intro ballI impI)
    fix u r
    assume len: "4 \<le> length (own_revisions u revisions)" and r: "r \<in> set (own_revisions u revisions)"
    from r have "r \<in> set revisions" and "editor_of r = u" by (simp_all add: own_revisions_def)
    then show "rev_timestamp r \<noteq> None" using assms len by blast
  qed
  show ?thesis
    using violations_loop_eq[OF own, of "[]"]
    by (simp add: detect_three_revert_violations_def user_revisions_eq)
qed

text \<open>
  C4 (three-revert-rule scan). For a history in which the revisions of every editor with
  at least 4 revisions carry a timestamp (the scan reads no other timestamp), the scan
  returns, in the order of the editors' first revisions, one violation for each editor
  who has at least 4 revisions and a pair of consecutive revisions of their own at which
  the gap is at most 24 hours and the running counter has reached 3; the violation is
  the one of the first such pair, with the timestamp of the current revision, the value
  of the counter and the gap. The counter counts the pairs so far whose sizes are both
  present and differ by less than 100 bytes, and never resets. Each editor's revisions
  are sorted by timestamp first, which changes nothing when the history is
  chronologically ordered. No editor has two violations.
\<close>

theorem three_revert_scan_characterised:
  assumes "\<forall>r \<in> set revisions.
             4 \<le> length (own_revisions (editor_of r) revisions) \<longrightarrow> rev_timestamp r \<noteq> None"
  shows "detect_three_revert_violations revisions
           = Inr (List.map_filter
                    (\<lambda>u. expected_violation u (sort_key timestamp_of (own_revisions u revisions)))
                    (editors_in_order revisions))
       \<and> (sorted (map timestamp_of revisions) \<longrightarrow>
            detect_three_revert_violations revisions
              = Inr (List.map_filter (\<lambda>u. expected_violation u (own_revisions u revisions))
                       (editors_in_order revisions)))
       \<and> (\<forall>out. detect_three_revert_violations revisions = Inr out \<longrightarrow>
            distinct (map v_user out))"
proof -
  have a: "detect_three_revert_violations revisions
           = Inr (List.map_filter
                    (\<lambda>u. expected_violation u (sort_key timestamp_of (own_revisions u revisions)))
                    (editors_in_order revisions))"
    using assms by (rule detect_three_revert_violations_eq)
  have b: "detect_three_revert_violations revisions
              = Inr (List.map_filter (\<lambda>u. expected_violation u (own_revisions u revisions))
                       (editors_in_order revisions))"
    if "sorted (map timestamp_of revisions)"
    using a own_sorted[OF that] by simp
  have "map v_user (List.map_filter
                    (\<lambda>u. expected_violation u (sort_key timestamp_of (own_revisions u revisions)))
                    (editors_in_order revisions))
        = filter (\<lambda>u. expected_violation u (sort_key timestamp_of (own_revisions u revisions)) \<noteq> None)
            (editors_in_order revisions)"
    by (rule map_filter_users) (rule expected_violation_user)
  then have c: "\<forall>out. detect_three_revert_violations revisions = Inr out \<longrightarrow>
            distinct (map v_user out)"
    using a distinct_editors_in_order[of revisions] by simp
  show ?thesis using a b c by blast
qed

theorem three_revert_scan_characterised_witness:
  "detect_three_revert_violations example_scan_history
     = Inr [\<lparr>v_user = ''Ann'', v_timestamp = 10800, v_revert_count = 3,
              v_time_window_hours = 1\<rparr>]"
proof -
  have ts: "\<forall>r \<in> set example_scan_history.
              4 \<le> length (own_revisions (editor_of r) example_scan_history) \<longrightarrow>
              rev_timestamp r \<noteq> None"
    by (simp add: example_scan_history_def own_revisions_def editor_of_def get_or_def)
  have eds: "editors_in_order example_scan_history = [''Ann'', ''Bob'']"
    by (simp add: editors_in_order_def example_scan_history_def editor_of_def get_or_def)
  have bob: "expected_violation ''Bob''
               (sort_key timestamp_of (own_revisions ''Bob'' example_scan_history)) = None"
    by (simp add: expected_violation_def own_revisions_def example_scan_history_def
          editor_of_def get_or_def)
  have srt: "sort_key timestamp_of (own_revisions ''Ann'' example_scan_history)
               = own_revisions ''Ann'' example_scan_history"
    by (rule sort_key_id_if_sorted)
       (simp add: own_revisions_def example_scan_history_def editor_of_def get_or_def
          timestamp_of_def)
  have ann: "expected_violation ''Ann'' (own_revisions ''Ann'' example_scan_history)
               = Some \<lparr>v_user = ''Ann'', v_timestamp = 10800, v_revert_count = 3,
                       v_time_window_hours = 1\<rparr>"
    by (simp add: expected_violation_def own_revisions_def example_scan_history_def
          editor_of_def get_or_def first_trigger_def trigger_def gap_hours_def
          running_counter_def small_delta_def violation_at_def timestamp_of_def
          upt_rec[of _ "Suc _"] eval_nat_numeral)
  show ?thesis
    using three_revert_scan_characterised [OF ts, THEN conjunct1]
    by (simp add: eds srt ann bob List.map_filter_simps)
qed

text \<open>
  C5 (five edits, one violation). One editor with five revisions, consecutive size
  deltas of 5 bytes and consecutive gaps between 0 and 24 hours: the scan returns exactly
  one violation, at the fourth revision, where the running counter first reaches 3, with
  \<open>revert_count = 3\<close> and the gap between the third and the fourth revision.
\<close>

theorem five_edits_one_violation:
  fixes t0 t1 t2 t3 t4 s0 s1 s2 s3 s4 :: int
  assumes deltas: "\<bar>s1 - s0\<bar> = 5" "\<bar>s2 - s1\<bar> = 5" "\<bar>s3 - s2\<bar> = 5" "\<bar>s4 - s3\<bar> = 5"
    and ordered: "t0 \<le> t1" "t1 \<le> t2" "t2 \<le> t3" "t3 \<le> t4"
    and gaps: "t1 - t0 \<le> 86400" "t2 - t1 \<le> 86400" "t3 - t2 \<le> 86400" "t4 - t3 \<le> 86400"
  shows "detect_three_revert_violations
           [\<lparr>rev_timestamp = Some t0, rev_user = usr, rev_comment = c0,
             rev_size = Some s0, rev_revid = i0, rev_parentid = p0\<rparr>,
            \<lparr>rev_timestamp = Some t1, rev_user = usr, rev_comment = c1,
             rev_size = Some s1, rev_revid = i1, rev_parentid = p1\<rparr>,
            \<lparr>rev_timestamp = Some t2, rev_user = usr, rev_comment = c2,
             rev_size = Some s2, rev_revid = i2, rev_parentid = p2\<rparr>,
            \<lparr>rev_timestamp = Some t3, rev_user = usr, rev_comment = c3,
             rev_size = Some s3, rev_revid = i3, rev_parentid = p3\<rparr>,
            \<lparr>rev_timestamp = Some t4, rev_user = usr, rev_comment = c4,
             rev_size = Some s4, rev_revid = i4, rev_parentid = p4\<rparr>]
         = Inr [\<lparr>v_user = get_or usr ''Anonymous'', v_timestamp = t3, v_revert_count = 3,
                  v_time_window_hours = of_int (t3 - t2) / 3600\<rparr>]"
proof -
  let ?r0 = "\<lparr>rev_timestamp = Some t0, rev_user = usr, rev_comment = c0,
             rev_size = Some s0, rev_revid = i0, rev_parentid = p0\<rparr>"
  let ?r1 = "\<lparr>rev_timestamp = Some t1, rev_user = usr, rev_comment = c1,
             rev_size = Some s1, rev_revid = i1, rev_parentid = p1\<rparr>"
  let ?r2 = "\<lparr>rev_timestamp = Some t2, rev_user = usr, rev_comment = c2,
             rev_size = Some s2, rev_revid = i2, rev_parentid = p2\<rparr>"
  let ?r3 = "\<lparr>rev_timestamp = Some t3, rev_user = usr, rev_comment = c3,
             rev_size = Some s3, rev_revid = i3, rev_parentid = p3\<rparr>"
  let ?r4 = "\<lparr>rev_timestamp = Some t4, rev_user = usr, rev_comment = c4,
             rev_size = Some s4, rev_revid = i4, rev_parentid = p4\<rparr>"
  let ?xs = "[?r0, ?r1, ?r2, ?r3, ?r4]"
  let ?u = "get_or usr ''Anonymous''"
  have ts: "\<forall>r \<in> set ?xs.
              4 \<le> length (own_revisions (editor_of r) ?xs) \<longrightarrow> rev_timestamp r \<noteq> None"
    by simp
  have eds: "editors_in_order ?xs = [?u]"
    by (simp add: editors_in_order_def editor_of_def)
  have own: "own_revisions ?u ?xs = ?xs"
    by (simp add: own_revisions_def editor_of_def)
  have srt: "sort_key timestamp_of ?xs = ?xs"
    using ordered by (intro sort_key_id_if_sorted) (simp add: timestamp_of_def)
  have sd: "small_delta ?xs 1" "small_delta ?xs 2" "small_delta ?xs 3"
    using deltas by (simp_all add: small_delta_def)
  have rc: "running_counter ?xs 1 = 1" "running_counter ?xs 2 = 2" "running_counter ?xs 3 = 3"
    using sd by (simp_all add: running_counter_def upt_rec[of _ "Suc _"] eval_nat_numeral)
  have gap: "gap_hours ?xs 3 = of_int (t3 - t2) / 3600"
    by (simp add: gap_hours_def timestamp_of_def)
  have g24: "(of_int (t3 - t2) / 3600 :: rat) \<le> 24"
    using gaps(3) by (simp add: divide_le_eq)
  have tr: "\<not> trigger ?xs 1" "\<not> trigger ?xs 2" "trigger ?xs 3"
    using g24 unfolding trigger_def rc gap by simp_all
  have ft: "first_trigger ?xs = Some 3"
  proof -
    have "[1..<length ?xs] = [1, 2, 3, 4]"
      by (simp add: upt_rec[of _ "Suc _"] eval_nat_numeral)
    then show ?thesis
      unfolding first_trigger_def using tr by (simp only: find.simps if_False if_True)
  qed
  have ev: "expected_violation ?u ?xs
              = Some \<lparr>v_user = ?u, v_timestamp = t3, v_revert_count = 3,
                      v_time_window_hours = of_int (t3 - t2) / 3600\<rparr>"
  proof -
    have "violation_at ?u ?xs 3
            = \<lparr>v_user = ?u, v_timestamp = t3, v_revert_count = 3,
                 v_time_window_hours = of_int (t3 - t2) / 3600\<rparr>"
      unfolding violation_at_def rc gap by (simp add: timestamp_of_def)
    moreover have "expected_violation ?u ?xs = Some (violation_at ?u ?xs 3)"
      by (simp add: expected_violation_def ft)
    ultimately show ?thesis by (simp only:)
  qed
  show ?thesis
    using detect_three_revert_violations_eq[OF ts]
    by (simp only: eds own srt ev List.map_filter_simps option.case)
qed

theorem five_edits_one_violation_witness:
  "detect_three_revert_violations
     [\<lparr>rev_timestamp = Some 0, rev_user = Some ''Ann'', rev_comment = Some ''a'',
       rev_size = Some 1000, rev_revid = Some 1, rev_parentid = None\<rparr>,
      \<lparr>rev_timestamp = Some 3600, rev_user = Some ''Ann'', rev_comment = Some ''b'',
       rev_size = Some 1005, rev_revid = Some 2, rev_parentid = Some 1\<rparr>,
      \<lparr>rev_timestamp = Some 7200, rev_user = Some ''Ann'', rev_comment = Some ''c'',
       rev_size = Some 1000, rev_revid = Some 3, rev_parentid = Some 2\<rparr>,
      \<lparr>rev_timestamp = Some 93600, rev_user = Some ''Ann'', rev_comment = Some ''d'',
       rev_size = Some 1005, rev_revid = Some 4, rev_parentid = Some 3\<rparr>,
      \<lparr>rev_timestamp = Some 97200, rev_user = Some ''Ann'', rev_comment = Some ''e'',
       rev_size = Some 1010, rev_revid = Some 5, rev_parentid = Some 4\<rparr>]
   = Inr [\<lparr>v_user = ''Ann'', v_timestamp = 93600, v_revert_count = 3,
            v_time_window_hours = 24\<rparr>]"
proof -
  have "detect_three_revert_violations
     [\<lparr>rev_timestamp = Some 0, rev_user = Some ''Ann'', rev_comment = Some ''a'',
       rev_size = Some 1000, rev_revid = Some 1, rev_parentid = None\<rparr>,
      \<lparr>rev_timestamp = Some 3600, rev_user = Some ''Ann'', rev_comment = Some ''b'',
       rev_size = Some 1005, rev_revid = Some 2, rev_parentid = Some 1\<rparr>,
      \<lparr>rev_timestamp = Some 7200, rev_user = Some ''Ann'', rev_comment = Some ''c'',
       rev_size = Some 1000, rev_revid = Some 3, rev_parentid = Some 2\<rparr>,
      \<lparr>rev_timestamp = Some 93600, rev_user = Some ''Ann'', rev_comment = Some ''d'',
       rev_size = Some 1005, rev_revid = Some 4, rev_parentid = Some 3\<rparr>,
      \<lparr>rev_timestamp = Some 97200, rev_user = Some ''Ann'', rev_comment = Some ''e'',
       rev_size = Some 1010, rev_revid = Some 5, rev_parentid = Some 4\<rparr>]
   = Inr [\<lparr>v_user = get_or (Some ''Ann'') ''Anonymous'', v_timestamp = 93600,
            v_revert_count = 3, v_time_window_hours = of_int (93600 - 7200) / 3600\<rparr>]"
    by (rule five_edits_one_violation) simp_all
  then show ?thesis by (simp add: get_or_def)
qed


end
